theory Spec2Isabelle
  imports Complex_Main "HOL-Library.Log_Nat"
begin

section \<open>JavaScript numbers\<close>

text \<open>
  A \<open>number\<close> of the source is a binary64 value (IEEE 754 double precision): a finite
  value, one of the two infinities, or NaN. A finite value is given by the rational it
  denotes; the two zeros are one value (\<open>-0\<close> is not told from \<open>0\<close>: no operation of the
  orchestrator separates them: it never divides by a token count, and a counter that is
  divided by is positive).
\<close>

datatype js_number = Finite rat | PlusInfinity | MinusInfinity | NaN

text \<open>
  The binary exponent of a positive rational \<open>x\<close>: the integer \<open>e\<close> with
  \<open>2 ^ e \<le> x < 2 ^ (e + 1)\<close>. With \<open>x = a / b\<close> in lowest terms and \<open>k\<close> the difference of the
  bit lengths of \<open>a\<close> and \<open>b\<close>, it is \<open>k\<close> or \<open>k - 1\<close>.
\<close>

definition ilog2 :: "rat \<Rightarrow> int" where
  "ilog2 x = (case quotient_of x of (a, b) \<Rightarrow>
     (let k = bitlen a - bitlen b in if 2 powi k \<le> x then k else k - 1))"

text \<open>
  The integer nearest to \<open>q = a / b\<close>, a tie going to the even one: with \<open>f\<close> the integer
  part and \<open>r\<close> the remainder of the division of \<open>a\<close> by \<open>b\<close>, what exceeds \<open>f\<close> is \<open>r / b\<close>.
\<close>

definition round_half_even :: "rat \<Rightarrow> int" where
  "round_half_even q =
     (case quotient_of q of (a, b) \<Rightarrow>
        (let f = a div b; r = a mod b
         in if 2 * r < b then f else if b < 2 * r then f + 1 else if even f then f else f + 1))"

text \<open>The rational \<open>m * 2 ^ p\<close>, in lowest terms when \<open>m\<close> is odd.\<close>

definition dyadic :: "int \<Rightarrow> int \<Rightarrow> rat" where
  "dyadic m p = (if 0 \<le> p then of_int (m * 2 ^ nat p) else Fract m (2 ^ nat (- p)))"

text \<open>
  Rounding of an exact result to binary64, in the default mode (to nearest, ties to even).
  A value of binary exponent \<open>e\<close> has 53 significant bits, so its neighbours are
  \<open>2 ^ (e - 52)\<close> apart; below the normal range (\<open>e < -1022\<close>) the spacing stays
  \<open>2 ^ -1074\<close>. The magnitude is rounded to a multiple \<open>n * 2 ^ p\<close> of the spacing
  \<open>2 ^ p\<close>; a rounded magnitude of \<open>2 ^ 1024\<close> or more is an infinity. Below the top binade
  (\<open>e < 1023\<close>) the rounded magnitude is at most \<open>2 ^ 1023\<close> and nothing overflows.
\<close>

definition round64 :: "rat \<Rightarrow> js_number" where
  "round64 x =
     (if x = 0 then Finite 0
      else
        (let e = ilog2 \<bar>x\<bar>;
             p = max e (- 1022) - 52;
             n = round_half_even (\<bar>x\<bar> / 2 powi p)
         in if e < 1023 then Finite (dyadic (if 0 < x then n else - n) p)
            else if 2 ^ 1024 \<le> n * 2 ^ nat p
            then (if 0 < x then PlusInfinity else MinusInfinity)
            else Finite (dyadic (if 0 < x then n else - n) p)))"

text \<open>
  The operators \<open>+\<close>, \<open>*\<close> and \<open>/\<close> on numbers: the exact result, rounded; NaN is
  contagious; the infinities follow IEEE 754.
\<close>

fun js_add :: "js_number \<Rightarrow> js_number \<Rightarrow> js_number" where
  "js_add (Finite a) (Finite b) = round64 (a + b)"
| "js_add NaN y = NaN"
| "js_add x NaN = NaN"
| "js_add PlusInfinity MinusInfinity = NaN"
| "js_add MinusInfinity PlusInfinity = NaN"
| "js_add PlusInfinity y = PlusInfinity"
| "js_add x PlusInfinity = PlusInfinity"
| "js_add MinusInfinity y = MinusInfinity"
| "js_add x MinusInfinity = MinusInfinity"

definition signed_infinity :: "bool \<Rightarrow> js_number" where
  "signed_infinity negative = (if negative then MinusInfinity else PlusInfinity)"

fun js_mul :: "js_number \<Rightarrow> js_number \<Rightarrow> js_number" where
  "js_mul (Finite a) (Finite b) = round64 (a * b)"
| "js_mul NaN y = NaN"
| "js_mul x NaN = NaN"
| "js_mul (Finite a) PlusInfinity = (if a = 0 then NaN else signed_infinity (a < 0))"
| "js_mul (Finite a) MinusInfinity = (if a = 0 then NaN else signed_infinity (0 < a))"
| "js_mul PlusInfinity (Finite b) = (if b = 0 then NaN else signed_infinity (b < 0))"
| "js_mul MinusInfinity (Finite b) = (if b = 0 then NaN else signed_infinity (0 < b))"
| "js_mul PlusInfinity PlusInfinity = PlusInfinity"
| "js_mul PlusInfinity MinusInfinity = MinusInfinity"
| "js_mul MinusInfinity PlusInfinity = MinusInfinity"
| "js_mul MinusInfinity MinusInfinity = PlusInfinity"

fun js_div :: "js_number \<Rightarrow> js_number \<Rightarrow> js_number" where
  "js_div (Finite a) (Finite b) =
     (if b = 0 then (if a = 0 then NaN else signed_infinity (a < 0)) else round64 (a / b))"
| "js_div NaN y = NaN"
| "js_div x NaN = NaN"
| "js_div (Finite a) PlusInfinity = Finite 0"
| "js_div (Finite a) MinusInfinity = Finite 0"
| "js_div PlusInfinity (Finite b) = signed_infinity (b < 0)"
| "js_div MinusInfinity (Finite b) = signed_infinity (0 \<le> b)"
| "js_div PlusInfinity PlusInfinity = NaN"
| "js_div PlusInfinity MinusInfinity = NaN"
| "js_div MinusInfinity PlusInfinity = NaN"
| "js_div MinusInfinity MinusInfinity = NaN"

text \<open>
  \<open>Math.round\<close>: the integer nearest to the value of its argument, a tie going up; an
  infinity and NaN are returned as they are.
\<close>

fun Math_round :: "js_number \<Rightarrow> js_number" where
  "Math_round (Finite x) = Finite (of_int \<lfloor>x + 1 / 2\<rfloor>)"
| "Math_round PlusInfinity = PlusInfinity"
| "Math_round MinusInfinity = MinusInfinity"
| "Math_round NaN = NaN"

text \<open>
  The counters of the orchestrator start at \<open>0\<close> and are incremented one by one; they are
  natural numbers in the model. Such a counter is exact in binary64 up to \<open>2 ^ 53\<close>, which
  no run reaches; where it enters an arithmetic expression it is the number of the same
  value.
\<close>

definition js_of_nat :: "nat \<Rightarrow> js_number" where
  "js_of_nat n = Finite (of_int (int n))"

section \<open>Shared types (shared/src/types.ts)\<close>

datatype ReviewStatus = pending | running | completed | error

datatype ReviewPhase = understanding | exploring | analyzing | synthesizing

record TokenUsage =
  inputTokens :: js_number
  outputTokens :: js_number
  cacheReadTokens :: js_number
  cacheCreationTokens :: js_number

record SubagentUsage =
  su_agentType :: string
  su_description :: string
  su_usage :: TokenUsage
  su_model :: string

text \<open>
  The status of a subagent event, \<open>"started" | "completed"\<close>; \<open>finished\<close> stands for
  \<open>"completed"\<close>, a name taken by the status of a review.
\<close>

datatype subagent_status = started | finished

text \<open>
  The six variants of \<open>ProgressEvent\<close>. Every event of the source also carries
  \<open>timestamp: now()\<close>, the wall-clock string at the moment of emission; no decision of the
  code reads it and it is left out of the payloads. The \<open>costUsd\<close> of a usage event,
  which no claim is about, is left out as well. The status of a \<open>complete\<close> event is one
  of \<open>completed\<close> and \<open>error\<close>; its message is optional (\<open>None\<close> is JavaScript's
  \<open>undefined\<close>).
\<close>

datatype event =
    Phase ReviewPhase string
  | Subagent string string subagent_status
  | Activity string string string
  | Progress js_number string
  | Usage TokenUsage "SubagentUsage list"
  | Complete ReviewStatus "string option"

section \<open>JavaScript helpers\<close>

text \<open>A string is truthy when it is not empty; an absent field is falsy.\<close>

definition truthy :: "string \<Rightarrow> bool" where
  "truthy s = (s \<noteq> [])"

definition truthy_opt :: "string option \<Rightarrow> bool" where
  "truthy_opt f = (case f of None \<Rightarrow> False | Some s \<Rightarrow> truthy s)"

text \<open>\<open>x ?? d\<close> on an optional string and on an optional number.\<close>

definition orElse :: "'a option \<Rightarrow> 'a \<Rightarrow> 'a" where
  "orElse f d = (case f of None \<Rightarrow> d | Some v \<Rightarrow> v)"

text \<open>Decimal rendering of a counter inside a template string.\<close>

fun string_of_nat :: "nat \<Rightarrow> string" where
  "string_of_nat n =
     (if n < 10 then [''0123456789'' ! n]
      else string_of_nat (n div 10) @ [''0123456789'' ! (n mod 10)])"

declare string_of_nat.simps [simp del]

text \<open>
  A JavaScript \<open>Map\<close> keeps its keys in insertion order; \<open>set\<close> on a key that is
  present replaces the value in place, on a new key it appends.
\<close>

fun mapGet :: "('k \<times> 'v) list \<Rightarrow> 'k \<Rightarrow> 'v option" where
  "mapGet [] k = None"
| "mapGet ((k', v) # m) k = (if k' = k then Some v else mapGet m k)"

fun mapSet :: "'k \<Rightarrow> 'v \<Rightarrow> ('k \<times> 'v) list \<Rightarrow> ('k \<times> 'v) list" where
  "mapSet k v [] = [(k, v)]"
| "mapSet k v ((k', v') # m) = (if k' = k then (k, v) # m else (k', v') # mapSet k v m)"

section \<open>The orchestrator (backend/src/agents/orchestrator.ts)\<close>

subsection \<open>Usage accumulation\<close>

definition emptyTokenUsage :: TokenUsage where
  "emptyTokenUsage =
     \<lparr>inputTokens = Finite 0, outputTokens = Finite 0, cacheReadTokens = Finite 0,
      cacheCreationTokens = Finite 0\<rparr>"

text \<open>The usage object of an API message: four optional numbers.\<close>

record api_usage =
  input_tokens :: "js_number option"
  output_tokens :: "js_number option"
  cache_read_input_tokens :: "js_number option"
  cache_creation_input_tokens :: "js_number option"

text \<open>
  \<open>addUsage\<close> mutates the accumulator; the model returns the new one. Each \<open>+=\<close> is a
  binary64 addition.
\<close>

definition addUsage :: "TokenUsage \<Rightarrow> api_usage option \<Rightarrow> TokenUsage" where
  "addUsage acc apiUsage =
     (case apiUsage of
        None \<Rightarrow> acc
      | Some u \<Rightarrow>
          acc\<lparr>inputTokens := js_add (inputTokens acc) (orElse (input_tokens u) (Finite 0)),
              outputTokens := js_add (outputTokens acc) (orElse (output_tokens u) (Finite 0)),
              cacheReadTokens :=
                js_add (cacheReadTokens acc) (orElse (cache_read_input_tokens u) (Finite 0)),
              cacheCreationTokens :=
                js_add (cacheCreationTokens acc)
                  (orElse (cache_creation_input_tokens u) (Finite 0))\<rparr>)"

subsection \<open>Engine messages\<close>

text \<open>
  The input of a tool invocation, with the four fields the orchestrator reads.
\<close>

record tool_input =
  subagent_type :: "string option"
  description :: "string option"
  file_path :: "string option"
  pattern :: "string option"

text \<open>
  A content block. A \<open>tool_use\<close> block carries its name (empty when absent), its id and
  its input; a \<open>tool_result\<close> block carries the \<open>tool_use_id\<close> it answers. The two
  integers of a block are the readings that the two calls of \<open>Date.now()\<close> return while the
  block is handled, when the handler makes them: for a \<open>tool_use\<close> block the reading
  compared with the throttle entry and the reading stored in it, for a \<open>tool_result\<close>
  block the two readings of the forced \<open>emitUsageIfDue\<close>.
\<close>

datatype block =
    TextBlock string
  | ToolUse string string tool_input int int
  | ToolResult string int int
  | OtherBlock

record result_message =
  subtype :: string
  result :: "string option"
  errors_json :: string

text \<open>
  A message of the engine. \<open>parent_tool_use_id\<close> is \<open>null\<close> (\<open>None\<close>) for the lead
  agent and a string for a subagent. The two integers of an assistant message are the
  readings of \<open>Date.now()\<close> in the \<open>emitUsageIfDue\<close> that ends its handling.
  \<open>errors_json\<close> is the text \<open>JSON.stringify\<close> gives for the errors of a result message.
\<close>

datatype message =
    SystemInit
  | Assistant "string option" "api_usage option" "block list option" int int
  | User "block list option"
  | Result result_message
  | OtherMessage

text \<open>
  A thrown value: an \<open>Error\<close> with its message, or some other value. What the engine's
  iterator does at each step: it yields a message or it throws; the end of the list is the
  end of the iteration.
\<close>

datatype thrown = ErrorObject string | NonError

datatype engine_item = Yield message | Throw thrown

text \<open>\<open>error instanceof Error ? error.message : "Unknown error"\<close>\<close>

definition error_message :: "thrown \<Rightarrow> string" where
  "error_message e = (case e of ErrorObject m \<Rightarrow> m | NonError \<Rightarrow> ''Unknown error'')"

subsection \<open>State of one run\<close>

record config =
  leadModel :: string
  explorerModel :: string
  seniorDevModel :: string

record task_info =
  ti_agentType :: string
  ti_description :: string

record subagent_entry =
  se_agentType :: string
  se_description :: string
  se_model :: string
  se_usage :: TokenUsage

record rstate =
  currentPhase :: ReviewPhase
  totalExplorers :: nat
  completedExplorers :: nat
  seniorDevStarted :: bool
  seniorDevCompleted :: bool
  taskMap :: "(string \<times> task_info) list"
  sessionTokens :: TokenUsage
  leadAgentTokens :: TokenUsage
  subagentTokens :: "(string \<times> subagent_entry) list"
  activityThrottle :: "(string \<times> int) list"
  lastUsageEmitTime :: int
  finalResult :: string

definition initial_state :: rstate where
  "initial_state =
     \<lparr>currentPhase = understanding, totalExplorers = 0, completedExplorers = 0,
      seniorDevStarted = False, seniorDevCompleted = False, taskMap = [],
      sessionTokens = emptyTokenUsage, leadAgentTokens = emptyTokenUsage,
      subagentTokens = [], activityThrottle = [], lastUsageEmitTime = 0,
      finalResult = []\<rparr>"

definition ACTIVITY_THROTTLE_MS :: int where
  "ACTIVITY_THROTTLE_MS = 1000"

definition USAGE_EMIT_INTERVAL_MS :: int where
  "USAGE_EMIT_INTERVAL_MS = 5000"

text \<open>
  What \<open>emit\<close> hands to \<open>onProgress\<close> is logged in order. An entry is the event together
  with, for an activity event, the key of the throttle and the two clock readings
  (compared, stored) of the invocation that produced it; this bookkeeping is not part of
  the event.
\<close>

type_synonym emission = "(string \<times> int \<times> int) option \<times> event"

definition emit :: "event \<Rightarrow> emission" where
  "emit e = (None, e)"

definition events :: "emission list \<Rightarrow> event list" where
  "events lg = map snd lg"

definition emitPhase :: "rstate \<Rightarrow> ReviewPhase \<Rightarrow> string \<Rightarrow> rstate \<times> emission list" where
  "emitPhase st phase msg = (st\<lparr>currentPhase := phase\<rparr>, [emit (Phase phase msg)])"

definition progress_percent :: "rstate \<Rightarrow> js_number" where
  "progress_percent st =
     (case currentPhase st of
        understanding \<Rightarrow> Finite 5
      | exploring \<Rightarrow>
          (if totalExplorers st > 0
           then Math_round
                  (js_add (Finite 10)
                     (js_mul (Finite 50)
                        (js_div (js_of_nat (completedExplorers st))
                           (js_of_nat (totalExplorers st)))))
           else Finite 15)
      | analyzing \<Rightarrow> (if seniorDevCompleted st then Finite 85 else Finite 70)
      | synthesizing \<Rightarrow> Finite 92)"

definition progress_message :: "rstate \<Rightarrow> string" where
  "progress_message st =
     (case currentPhase st of
        understanding \<Rightarrow> ''Reading and understanding the PRD...''
      | exploring \<Rightarrow>
          (if totalExplorers st > 0
           then ''Exploring codebase ('' @ string_of_nat (completedExplorers st) @ ''/''
                  @ string_of_nat (totalExplorers st) @ '' complete)''
           else ''Exploring codebase...'')
      | analyzing \<Rightarrow>
          (if seniorDevCompleted st then ''Analysis complete, preparing final output...''
           else ''Senior developer analyzing findings...'')
      | synthesizing \<Rightarrow> ''Synthesizing final review...'')"

definition emitProgress :: "rstate \<Rightarrow> emission list" where
  "emitProgress st = [emit (Progress (progress_percent st) (progress_message st))]"

definition subagent_usages :: "(string \<times> subagent_entry) list \<Rightarrow> SubagentUsage list" where
  "subagent_usages m =
     map (\<lambda>(k, v). \<lparr>su_agentType = se_agentType v, su_description = se_description v,
                     su_usage = se_usage v, su_model = se_model v\<rparr>) m"

text \<open>
  \<open>emitUsageIfDue\<close>, with the two readings of \<open>Date.now()\<close>: the one compared with
  \<open>lastUsageEmitTime\<close> and the one stored.
\<close>

definition emitUsageIfDue :: "rstate \<Rightarrow> int \<Rightarrow> int \<Rightarrow> rstate \<times> emission list" where
  "emitUsageIfDue st t1 t2 =
     (if t1 - lastUsageEmitTime st < USAGE_EMIT_INTERVAL_MS then (st, [])
      else (st\<lparr>lastUsageEmitTime := t2\<rparr>,
            [emit (Usage (sessionTokens st) (subagent_usages (subagentTokens st)))]))"

subsection \<open>Content blocks of an assistant message\<close>

text \<open>Lead agent text: the step to \<open>synthesizing\<close>.\<close>

definition leadTextBranch :: "rstate \<Rightarrow> string option \<Rightarrow> block \<Rightarrow> rstate \<times> emission list" where
  "leadTextBranch st parent b =
     (case b of
        TextBlock txt \<Rightarrow>
          (if truthy txt \<and> parent = None
           then (if seniorDevCompleted st \<and> currentPhase st \<noteq> synthesizing
                 then (let (st1, e1) = emitPhase st synthesizing ''Synthesizing final review...''
                       in (st1, e1 @ emitProgress st1))
                 else (st, []))
           else (st, []))
      | _ \<Rightarrow> (st, []))"

text \<open>A \<open>Task\<close> invocation: the delegation of a subtask.\<close>

definition taskBranch :: "config \<Rightarrow> rstate \<Rightarrow> block \<Rightarrow> rstate \<times> emission list" where
  "taskBranch cfg st b =
     (case b of
        ToolUse name toolUseId inp t1 t2 \<Rightarrow>
          (if name = ''Task''
           then
             (let agentType = orElse (subagent_type inp) ''unknown'';
                  descr = orElse (description inp) [];
                  st1 = st\<lparr>taskMap :=
                           mapSet toolUseId \<lparr>ti_agentType = agentType, ti_description = descr\<rparr>
                             (taskMap st)\<rparr>;
                  st2 = st1\<lparr>subagentTokens :=
                           mapSet toolUseId
                             \<lparr>se_agentType = agentType, se_description = descr,
                              se_model =
                                (if agentType = ''codebase-explorer''
                                 then (if truthy (explorerModel cfg) then explorerModel cfg
                                       else ''sonnet'')
                                 else (if truthy (seniorDevModel cfg) then seniorDevModel cfg
                                       else ''sonnet'')),
                              se_usage = emptyTokenUsage\<rparr>
                             (subagentTokens st1)\<rparr>;
                  (st3, e3) =
                    (if agentType = ''codebase-explorer''
                     then (let s = st2\<lparr>totalExplorers := totalExplorers st2 + 1\<rparr>
                           in if currentPhase s = understanding
                              then emitPhase s exploring
                                     (''Exploring codebase (0/'' @ string_of_nat (totalExplorers s)
                                        @ '' sections)...'')
                              else (s, []))
                     else if agentType = ''senior-developer''
                     then emitPhase (st2\<lparr>seniorDevStarted := True\<rparr>) analyzing
                            ''Senior developer analyzing findings...''
                     else (st2, []))
              in (st3, e3 @ [emit (Subagent agentType descr started)] @ emitProgress st3))
           else (st, []))
      | _ \<Rightarrow> (st, []))"

text \<open>
  A tool invocation of a subagent: at most one activity event per throttle interval and
  agent key.
\<close>

definition activity_detail :: "string \<Rightarrow> tool_input \<Rightarrow> string" where
  "activity_detail toolName inp =
     (if toolName = ''Read'' \<and> truthy_opt (file_path inp) then orElse (file_path inp) []
      else if toolName = ''Grep'' \<and> truthy_opt (pattern inp)
      then ''pattern: '' @ [CHR 0x22] @ orElse (pattern inp) [] @ [CHR 0x22]
      else if toolName = ''Glob'' \<and> truthy_opt (pattern inp)
      then ''pattern: '' @ orElse (pattern inp) []
      else [])"

definition activityBranch :: "rstate \<Rightarrow> string option \<Rightarrow> block \<Rightarrow> rstate \<times> emission list" where
  "activityBranch st parent b =
     (case b of
        ToolUse toolName toolUseId inp t1 t2 \<Rightarrow>
          (case parent of
             None \<Rightarrow> (st, [])
           | Some agentKey \<Rightarrow>
               (if truthy agentKey
                then
                  (let lastEmit = orElse (mapGet (activityThrottle st) agentKey) 0
                   in if t1 - lastEmit \<ge> ACTIVITY_THROTTLE_MS
                      then
                        (let st1 = st\<lparr>activityThrottle :=
                                        mapSet agentKey t2 (activityThrottle st)\<rparr>;
                             detail = activity_detail toolName inp
                         in if truthy detail
                            then (st1,
                                  [(Some (agentKey, t1, t2),
                                    Activity
                                      (case mapGet (taskMap st) agentKey of
                                         None \<Rightarrow> ''unknown'' | Some i \<Rightarrow> ti_agentType i)
                                      toolName detail)])
                            else (st1, []))
                      else (st, []))
                else (st, [])))
      | _ \<Rightarrow> (st, []))"

definition assistantBlock :: "config \<Rightarrow> rstate \<Rightarrow> string option \<Rightarrow> block \<Rightarrow> rstate \<times> emission list" where
  "assistantBlock cfg st parent b =
     (let (st1, e1) = leadTextBranch st parent b;
          (st2, e2) = taskBranch cfg st1 b;
          (st3, e3) = activityBranch st2 parent b
      in (st3, e1 @ e2 @ e3))"

fun assistantBlocks :: "config \<Rightarrow> rstate \<Rightarrow> string option \<Rightarrow> block list \<Rightarrow> rstate \<times> emission list" where
  "assistantBlocks cfg st parent [] = (st, [])"
| "assistantBlocks cfg st parent (b # bs) =
     (let (st1, e1) = assistantBlock cfg st parent b;
          (st2, e2) = assistantBlocks cfg st1 parent bs
      in (st2, e1 @ e2))"

text \<open>Token accounting at the head of an assistant message.\<close>

definition accumulateUsage :: "rstate \<Rightarrow> string option \<Rightarrow> api_usage option \<Rightarrow> rstate" where
  "accumulateUsage st parent u =
     (case u of
        None \<Rightarrow> st
      | Some _ \<Rightarrow>
          (let st1 = st\<lparr>sessionTokens := addUsage (sessionTokens st) u\<rparr>
           in case parent of
                None \<Rightarrow> st1\<lparr>leadAgentTokens := addUsage (leadAgentTokens st1) u\<rparr>
              | Some agentKey \<Rightarrow>
                  (if truthy agentKey
                   then (case mapGet (subagentTokens st1) agentKey of
                           None \<Rightarrow> st1
                         | Some subEntry \<Rightarrow>
                             st1\<lparr>subagentTokens :=
                                   mapSet agentKey
                                     (subEntry\<lparr>se_usage := addUsage (se_usage subEntry) u\<rparr>)
                                     (subagentTokens st1)\<rparr>)
                   else st1)))"

subsection \<open>Content blocks of a user message\<close>

definition userBlock :: "rstate \<Rightarrow> block \<Rightarrow> rstate \<times> emission list" where
  "userBlock st b =
     (case b of
        ToolResult toolUseId t1 t2 \<Rightarrow>
          (if truthy toolUseId
           then
             (case mapGet (taskMap st) toolUseId of
                None \<Rightarrow> (st, [])
              | Some subInfo \<Rightarrow>
                  (let st1 =
                         (if ti_agentType subInfo = ''codebase-explorer''
                          then st\<lparr>completedExplorers := completedExplorers st + 1\<rparr>
                          else if ti_agentType subInfo = ''senior-developer''
                          then st\<lparr>seniorDevCompleted := True\<rparr>
                          else st);
                       e1 = [emit (Subagent (ti_agentType subInfo) (ti_description subInfo) finished)]
                              @ emitProgress st1;
                       (st2, e2) = emitUsageIfDue (st1\<lparr>lastUsageEmitTime := 0\<rparr>) t1 t2
                   in (st2, e1 @ e2)))
           else (st, []))
      | _ \<Rightarrow> (st, []))"

fun userBlocks :: "rstate \<Rightarrow> block list \<Rightarrow> rstate \<times> emission list" where
  "userBlocks st [] = (st, [])"
| "userBlocks st (b # bs) =
     (let (st1, e1) = userBlock st b;
          (st2, e2) = userBlocks st1 bs
      in (st2, e1 @ e2))"

subsection \<open>One message, and the loop over the engine's stream\<close>

text \<open>
  The body of the \<open>for await\<close> loop: the new state, what was emitted, and the error
  thrown by a result message that is not a success.
\<close>

definition failure_text :: "result_message \<Rightarrow> string" where
  "failure_text r =
     ''Agent failed with subtype: '' @ subtype r @ ''. Errors: '' @ errors_json r"

definition handleMessage :: "config \<Rightarrow> rstate \<Rightarrow> message \<Rightarrow> rstate \<times> emission list \<times> thrown option" where
  "handleMessage cfg st m =
     (case m of
        SystemInit \<Rightarrow> (st, [], None)
      | Assistant parent u content t1 t2 \<Rightarrow>
          (let st1 = accumulateUsage st parent u;
               (st2, e2) = (case content of None \<Rightarrow> (st1, [])
                            | Some bs \<Rightarrow> assistantBlocks cfg st1 parent bs);
               (st3, e3) = emitUsageIfDue st2 t1 t2
           in (st3, e2 @ e3, None))
      | User content \<Rightarrow>
          (let (st1, e1) = (case content of None \<Rightarrow> (st, []) | Some bs \<Rightarrow> userBlocks st bs)
           in (st1, e1, None))
      | Result r \<Rightarrow>
          (if subtype r = ''success''
           then (st\<lparr>finalResult := orElse (result r) []\<rparr>, [], None)
           else (st, [], Some (ErrorObject (failure_text r))))
      | OtherMessage \<Rightarrow> (st, [], None))"

fun messageLoop :: "config \<Rightarrow> rstate \<Rightarrow> engine_item list \<Rightarrow> rstate \<times> emission list \<times> thrown option" where
  "messageLoop cfg st [] = (st, [], None)"
| "messageLoop cfg st (Throw e # rest) = (st, [], Some e)"
| "messageLoop cfg st (Yield m # rest) =
     (case handleMessage cfg st m of
        (st1, e1, Some err) \<Rightarrow> (st1, e1, Some err)
      | (st1, e1, None) \<Rightarrow>
          (let (st2, e2, r) = messageLoop cfg st1 rest in (st2, e1 @ e2, r)))"

text \<open>
  What \<open>runReview\<close> returns on success: the output and, of the usage summary, the session
  totals and the per-subagent breakdown with the lead agent first. Cost, durations and the
  per-model breakdown copy the engine's own accounting and are left out.
\<close>

record SessionUsage =
  totalTokens :: TokenUsage
  subagentBreakdown :: "SubagentUsage list"

record OrchestratorResult =
  or_output :: string
  or_usage :: SessionUsage

text \<open>The opening of \<open>runReview\<close>: the first phase event and the first progress event.\<close>

definition runStart :: "rstate \<times> emission list" where
  "runStart =
     (let (st, e) = emitPhase initial_state understanding ''Reading and understanding the PRD...''
      in (st, e @ emitProgress st))"

text \<open>
  \<open>runReview\<close>: everything emitted, and either the error re-thrown to the caller
  (\<open>Inl\<close>) or the result returned (\<open>Inr\<close>).
\<close>

definition runReview :: "config \<Rightarrow> engine_item list \<Rightarrow> emission list \<times> (thrown + OrchestratorResult)" where
  "runReview cfg items =
     (let (st0, e0) = runStart;
          (st, e, r) = messageLoop cfg st0 items
      in case r of
           Some err \<Rightarrow>
             (e0 @ e @ [emit (Complete error (Some (error_message err)))], Inl err)
         | None \<Rightarrow>
             (e0 @ e @ [emit (Progress (Finite 100) ''Review complete!''),
                        emit (Complete completed None)],
              Inr \<lparr>or_output = finalResult st,
                   or_usage =
                     \<lparr>totalTokens = sessionTokens st,
                      subagentBreakdown =
                        \<lparr>su_agentType = ''lead-agent'',
                         su_description = ''Tech Lead (orchestrator)'',
                         su_usage = leadAgentTokens st, su_model = leadModel cfg\<rparr>
                        # subagent_usages (subagentTokens st)\<rparr>\<rparr>))"

text \<open>The state of the run after a stream, for statements about the counters.\<close>

definition stateAfter :: "config \<Rightarrow> engine_item list \<Rightarrow> rstate" where
  "stateAfter cfg items = fst (messageLoop cfg (fst runStart) items)"

section \<open>Storage of review metadata (backend/src/services/storage.ts)\<close>

record SupplementarySource =
  ss_fileName :: string
  ss_originalName :: string
  ss_label :: "string option"

text \<open>
  The metadata of a review, one JSON file per review. The store maps the id of a review to
  its metadata; the \<open>id\<close> field of the file is that key and is not repeated in the
  record. Failures of the file system are not modelled: a read fails only when there is no
  review under the id.
\<close>

record ReviewMeta =
  fileName :: string
  originalName :: string
  repoPaths :: "string list"
  status :: ReviewStatus
  createdAt :: string
  completedAt :: "string option"
  err :: "string option"
  usage :: "SessionUsage option"
  supplementaryFiles :: "SupplementarySource list option"
  additionalContext :: "string option"
  webSearchEnabled :: "bool option"

record storage =
  metas :: "string \<Rightarrow> ReviewMeta option"
  outputs :: "string \<Rightarrow> string option"

definition getReviewMeta :: "storage \<Rightarrow> string \<Rightarrow> ReviewMeta option" where
  "getReviewMeta sto rid = metas sto rid"

definition not_found :: "string \<Rightarrow> thrown" where
  "not_found rid = ErrorObject (''Review '' @ rid @ '' not found'')"

text \<open>
  \<open>updateReviewStatus\<close>; \<open>nowIso\<close> is the time written as \<open>completedAt\<close>. The error
  text is stored only when it is given and truthy.
\<close>

definition updateReviewStatus :: "storage \<Rightarrow> string \<Rightarrow> ReviewStatus \<Rightarrow> string option \<Rightarrow> string \<Rightarrow> thrown + storage" where
  "updateReviewStatus sto rid st e nowIso =
     (case getReviewMeta sto rid of
        None \<Rightarrow> Inl (not_found rid)
      | Some meta \<Rightarrow>
          (let m1 = meta\<lparr>status := st\<rparr>;
               m2 = (if st = completed \<or> st = error then m1\<lparr>completedAt := Some nowIso\<rparr> else m1);
               m3 = (if truthy_opt e then m2\<lparr>err := e\<rparr> else m2)
           in Inr (sto\<lparr>metas := (metas sto)(rid \<mapsto> m3)\<rparr>)))"

definition saveReviewOutput :: "storage \<Rightarrow> string \<Rightarrow> string \<Rightarrow> storage" where
  "saveReviewOutput sto rid markdown = sto\<lparr>outputs := (outputs sto)(rid \<mapsto> markdown)\<rparr>"

definition saveReviewUsage :: "storage \<Rightarrow> string \<Rightarrow> SessionUsage \<Rightarrow> thrown + storage" where
  "saveReviewUsage sto rid u =
     (case getReviewMeta sto rid of
        None \<Rightarrow> Inl (not_found rid)
      | Some meta \<Rightarrow> Inr (sto\<lparr>metas := (metas sto)(rid \<mapsto> meta\<lparr>usage := Some u\<rparr>)\<rparr>))"

section \<open>The routes (backend/src/routes/reviews.ts)\<close>

text \<open>
  An \<open>EventEmitter\<close>: its identity and the listeners on \<open>progress\<close>, in the order they
  were attached. A listener is named by the connection that owns it.
\<close>

record emitter =
  emitter_id :: nat
  listeners :: "nat list"

text \<open>
  The server: the store, the registry \<open>reviewEmitters\<close>, the review processes started in
  the background, and the number of emitters created so far (the identity of the next).
\<close>

record server =
  store :: storage
  reviewEmitters :: "string \<Rightarrow> emitter option"
  background :: "string list"
  created :: nat

subsection \<open>The background review process\<close>

text \<open>
  The synchronous part of \<open>startReviewProcess\<close>: a new emitter is registered under the
  review id and the asynchronous body is started.
\<close>

definition startReviewProcess :: "server \<Rightarrow> string \<Rightarrow> server" where
  "startReviewProcess srv reviewId =
     srv\<lparr>reviewEmitters :=
           (reviewEmitters srv)(reviewId \<mapsto> \<lparr>emitter_id = created srv, listeners = []\<rparr>),
         created := created srv + 1,
         background := background srv @ [reviewId]\<rparr>"

text \<open>
  The \<open>catch\<close> of the asynchronous body: the error status with the captured message; a
  failure of that update is logged and dropped.
\<close>

definition recordFailure :: "storage \<Rightarrow> string \<Rightarrow> thrown \<Rightarrow> string \<Rightarrow> storage" where
  "recordFailure sto reviewId e nowIso =
     (case updateReviewStatus sto reviewId error (Some (error_message e)) nowIso of
        Inl _ \<Rightarrow> sto
      | Inr sto1 \<Rightarrow> sto1)"

text \<open>
  The asynchronous body of \<open>startReviewProcess\<close>. \<open>parsed\<close> is what \<open>parseFile\<close> gives
  for the uploaded document (its text, or the error it throws), \<open>items\<close> is what the engine
  does when \<open>runReview\<close> queries it. The result is the store at the end and the events
  published on the emitter. Supplementary sources only feed the prompt and are left out.
\<close>

definition reviewProcess :: "config \<Rightarrow> storage \<Rightarrow> string \<Rightarrow> thrown + string \<Rightarrow> engine_item list \<Rightarrow> string \<Rightarrow> storage \<times> emission list" where
  "reviewProcess cfg sto reviewId parsed items nowIso =
     (case updateReviewStatus sto reviewId running None nowIso of
        Inl e \<Rightarrow> (recordFailure sto reviewId e nowIso, [])
      | Inr sto1 \<Rightarrow>
          (case parsed of
             Inl e \<Rightarrow> (recordFailure sto1 reviewId e nowIso, [])
           | Inr prdContent \<Rightarrow>
               (case runReview cfg items of
                  (published, Inl e) \<Rightarrow> (recordFailure sto1 reviewId e nowIso, published)
                | (published, Inr res) \<Rightarrow>
                    (let sto2 = saveReviewOutput sto1 reviewId (or_output res)
                     in case saveReviewUsage sto2 reviewId (or_usage res) of
                          Inl e \<Rightarrow> (recordFailure sto2 reviewId e nowIso, published)
                        | Inr sto3 \<Rightarrow>
                            (case updateReviewStatus sto3 reviewId completed None nowIso of
                               Inl e \<Rightarrow> (recordFailure sto3 reviewId e nowIso, published)
                             | Inr sto4 \<Rightarrow> (sto4, published))))))"

subsection \<open>GET /api/reviews/:id/stream\<close>

text \<open>
  What is written on the response: a \<open>data:\<close> frame holding the JSON of an event, or a
  keepalive comment.
\<close>

datatype frame = DataFrame event | KeepaliveFrame

text \<open>
  The outcome of the handler for the connection \<open>conn\<close>: the HTTP status, the error body
  of a response that is not a stream, the frames written, whether the response was ended,
  the registry afterwards, and which timers and handlers the connection has installed (the
  interval that polls for the emitter, the keepalive interval, the \<open>close\<close> handler).
\<close>

record stream_outcome =
  http_status :: nat
  error_body :: "string option"
  frames :: "frame list"
  ended :: bool
  emitters_after :: "string \<Rightarrow> emitter option"
  pollInterval :: bool
  keepalive :: bool
  closeHandler :: bool

definition addListener :: "emitter \<Rightarrow> nat \<Rightarrow> emitter" where
  "addListener em conn = em\<lparr>listeners := listeners em @ [conn]\<rparr>"

definition streamHandler :: "server \<Rightarrow> string \<Rightarrow> nat \<Rightarrow> stream_outcome" where
  "streamHandler srv reviewId conn =
     (case getReviewMeta (store srv) reviewId of
        None \<Rightarrow>
          \<lparr>http_status = 404, error_body = Some ''Review not found'', frames = [],
           ended = True, emitters_after = reviewEmitters srv, pollInterval = False,
           keepalive = False, closeHandler = False\<rparr>
      | Some meta \<Rightarrow>
          (if status meta = completed \<or> status meta = error
           then
             \<lparr>http_status = 200, error_body = None,
              frames = [DataFrame (Complete (status meta)
                                     (if status meta = error then err meta else None))],
              ended = True, emitters_after = reviewEmitters srv, pollInterval = False,
              keepalive = False, closeHandler = False\<rparr>
           else
             (case reviewEmitters srv reviewId of
                None \<Rightarrow>
                  \<lparr>http_status = 200, error_body = None,
                   frames = [DataFrame (Phase understanding ''Waiting to start...'')],
                   ended = False, emitters_after = reviewEmitters srv, pollInterval = True,
                   keepalive = True, closeHandler = True\<rparr>
              | Some em \<Rightarrow>
                  \<lparr>http_status = 200, error_body = None, frames = [], ended = False,
                   emitters_after = (reviewEmitters srv)(reviewId \<mapsto> addListener em conn),
                   pollInterval = False, keepalive = True, closeHandler = True\<rparr>)))"

text \<open>
  A tick of the polling interval of a connection, on the registry as it is then: when the
  interval is installed and the emitter has appeared, the listener is attached and the
  interval cleared. The result is the registry and whether the interval is still installed.
\<close>

definition pollTick :: "(string \<Rightarrow> emitter option) \<Rightarrow> string \<Rightarrow> nat \<Rightarrow> bool \<Rightarrow> (string \<Rightarrow> emitter option) \<times> bool" where
  "pollTick ems reviewId conn installed =
     (if installed
      then (case ems reviewId of
              None \<Rightarrow> (ems, True)
            | Some em \<Rightarrow> (ems(reviewId \<mapsto> addListener em conn), False))
      else (ems, False))"

subsection \<open>POST /api/reviews/:id/rerun\<close>

text \<open>
  The handler gives the HTTP status, the error body of a refusal, and the server
  afterwards. The body of a successful answer is the metadata read back while the new
  process is already running, and is left out.
\<close>

definition rerunHandler :: "server \<Rightarrow> string \<Rightarrow> string \<Rightarrow> nat \<times> string option \<times> server" where
  "rerunHandler srv rid nowIso =
     (case getReviewMeta (store srv) rid of
        None \<Rightarrow> (404, Some ''Review not found'', srv)
      | Some meta \<Rightarrow>
          (if status meta = running
           then (409, Some ''Review is already running'', srv)
           else
             (case updateReviewStatus (store srv) rid pending None nowIso of
                Inl e \<Rightarrow> (500, Some ''Failed to rerun review'', srv)
              | Inr sto1 \<Rightarrow> (200, None, startReviewProcess (srv\<lparr>store := sto1\<rparr>) rid))))"

section \<open>The progress panel of the client (frontend ProgressPanel)\<close>

datatype phase_status = phase_pending | phase_active | phase_completed

record PhaseInfo =
  key :: ReviewPhase
  label :: string
  phase_state :: phase_status
  message :: "string option"

definition PHASE_ORDER :: "ReviewPhase list" where
  "PHASE_ORDER = [understanding, exploring, analyzing, synthesizing]"

definition PHASE_LABELS :: "ReviewPhase \<Rightarrow> string" where
  "PHASE_LABELS p =
     (case p of
        understanding \<Rightarrow> ''Understanding PRD''
      | exploring \<Rightarrow> ''Exploring codebase''
      | analyzing \<Rightarrow> ''Senior developer analysis''
      | synthesizing \<Rightarrow> ''Synthesizing final review'')"

text \<open>\<open>Array.prototype.indexOf\<close>: the first position of the element, or \<open>-1\<close>.\<close>

fun indexOf :: "'a list \<Rightarrow> 'a \<Rightarrow> int" where
  "indexOf [] x = -1"
| "indexOf (y # ys) x =
     (if y = x then 0 else (let i = indexOf ys x in if i < 0 then -1 else i + 1))"

definition initial_phases :: "PhaseInfo list" where
  "initial_phases =
     map (\<lambda>k. \<lparr>key = k, label = PHASE_LABELS k,
                phase_state = (if k = understanding then phase_active else phase_pending),
                message = None\<rparr>) PHASE_ORDER"

text \<open>
  What \<open>handleEvent\<close> does to the \<open>phases\<close> state: the updater it passes to
  \<open>setPhases\<close>, applied to the previous list. Only \<open>phase\<close> and \<open>complete\<close> events
  touch this state.
\<close>

definition handleEvent_phases :: "event \<Rightarrow> PhaseInfo list \<Rightarrow> PhaseInfo list" where
  "handleEvent_phases ev prev =
     (case ev of
        Phase phase msg \<Rightarrow>
          map (\<lambda>p. if key p = phase then p\<lparr>phase_state := phase_active, message := Some msg\<rparr>
                    else (let phaseIdx = indexOf PHASE_ORDER phase;
                              pIdx = indexOf PHASE_ORDER (key p)
                          in if pIdx < phaseIdx then p\<lparr>phase_state := phase_completed\<rparr> else p))
              prev
      | Complete st m \<Rightarrow>
          (if st = completed then map (\<lambda>p. p\<lparr>phase_state := phase_completed\<rparr>) prev else prev)
      | _ \<Rightarrow> prev)"

section \<open>Observations on a run\<close>

text \<open>The fixed order of the phases.\<close>

definition phase_rank :: "ReviewPhase \<Rightarrow> nat" where
  "phase_rank p =
     (case p of understanding \<Rightarrow> 0 | exploring \<Rightarrow> 1 | analyzing \<Rightarrow> 2 | synthesizing \<Rightarrow> 3)"

text \<open>The events of a run, as a client receives them.\<close>

definition emitted :: "config \<Rightarrow> engine_item list \<Rightarrow> event list" where
  "emitted cfg items = events (fst (runReview cfg items))"

text \<open>The phases carried by the phase events, and the percents of the progress events.\<close>

definition phases_of :: "event list \<Rightarrow> ReviewPhase list" where
  "phases_of evs = concat (map (\<lambda>e. case e of Phase p m \<Rightarrow> [p] | _ \<Rightarrow> []) evs)"

definition percents_of :: "event list \<Rightarrow> js_number list" where
  "percents_of evs = concat (map (\<lambda>e. case e of Progress p m \<Rightarrow> [p] | _ \<Rightarrow> []) evs)"

text \<open>
  What an observer of the events knows at a point of the stream: the current phase is the
  one of the last phase event, the number of explorers delegated is the number of
  \<open>started\<close> events of kind \<open>codebase-explorer\<close>, the number completed is the number of
  their \<open>finished\<close> events.
\<close>

definition phase_step :: "event \<Rightarrow> ReviewPhase \<Rightarrow> ReviewPhase" where
  "phase_step e p = (case e of Phase q m \<Rightarrow> q | _ \<Rightarrow> p)"

definition phase_at :: "event list \<Rightarrow> ReviewPhase" where
  "phase_at evs = fold phase_step evs understanding"

definition is_explorer :: "subagent_status \<Rightarrow> event \<Rightarrow> bool" where
  "is_explorer s e =
     (case e of Subagent a d s' \<Rightarrow> a = ''codebase-explorer'' \<and> s' = s | _ \<Rightarrow> False)"

definition explorers_started :: "event list \<Rightarrow> nat" where
  "explorers_started evs = length (filter (is_explorer started) evs)"

definition explorers_finished :: "event list \<Rightarrow> nat" where
  "explorers_finished evs = length (filter (is_explorer finished) evs)"

text \<open>
  The percent the specification gives for the exploring phase,
  \<open>round(10 + 50 * (completed / total))\<close>, in two readings: with the quotient, the product
  and the sum each rounded to binary64, as \<open>Math.round(10 + 50 * (c / t))\<close> evaluates, and
  with the argument of the rounding evaluated exactly.
\<close>

definition exploring_percent :: "nat \<Rightarrow> nat \<Rightarrow> js_number" where
  "exploring_percent c t =
     (if t > 0
      then Math_round (js_add (Finite 10) (js_mul (Finite 50) (js_div (js_of_nat c) (js_of_nat t))))
      else Finite 15)"

definition exact_percent :: "nat \<Rightarrow> nat \<Rightarrow> int" where
  "exact_percent c t = \<lfloor>10 + 50 * (of_nat c / of_nat t) + 1 / 2 :: rat\<rfloor>"

text \<open>
  What the events show at position \<open>n\<close>: the event there, and the phase and the counts of
  explorers completed and delegated that the events before it give.
\<close>

definition observed_at :: "event list \<Rightarrow> nat \<Rightarrow> event \<times> ReviewPhase \<times> nat \<times> nat" where
  "observed_at evs n =
     (evs ! n, phase_at (take n evs), explorers_finished (take n evs),
      explorers_started (take n evs))"

text \<open>
  The position of the progress event that a successful run emits, outside
  \<open>emitProgress\<close>, just before its \<open>complete\<close> event.
\<close>

definition final_progress :: "config \<Rightarrow> engine_item list \<Rightarrow> nat \<Rightarrow> bool" where
  "final_progress cfg items n \<longleftrightarrow>
     \<not> isl (snd (runReview cfg items)) \<and> Suc (Suc n) = length (emitted cfg items)"

text \<open>The state of the run agrees with what the events so far show.\<close>

definition tracks :: "rstate \<Rightarrow> event list \<Rightarrow> bool" where
  "tracks st evs \<longleftrightarrow>
     currentPhase st = phase_at evs \<and> totalExplorers st = explorers_started evs \<and>
     completedExplorers st = explorers_finished evs"

text \<open>
  Every progress event of \<open>new\<close>, emitted after \<open>pre\<close>, carries the exploring percent when
  the phase at its point is exploring.
\<close>

fun progress_ok :: "event list \<Rightarrow> event list \<Rightarrow> bool" where
  "progress_ok pre [] = True"
| "progress_ok pre (e # es) =
     ((case e of
         Progress p m \<Rightarrow>
           phase_at pre = exploring \<longrightarrow>
           p = exploring_percent (explorers_finished pre) (explorers_started pre)
       | _ \<Rightarrow> True) \<and>
      progress_ok (pre @ [e]) es)"

text \<open>What is emitted before the closing events of \<open>runReview\<close>.\<close>

definition loop_log :: "config \<Rightarrow> engine_item list \<Rightarrow> emission list" where
  "loop_log cfg items = snd runStart @ fst (snd (messageLoop cfg (fst runStart) items))"

text \<open>The ids answered by the \<open>tool_result\<close> blocks of the user messages of a stream.\<close>

definition block_result_ids :: "block \<Rightarrow> string list" where
  "block_result_ids b = (case b of ToolResult i t1 t2 \<Rightarrow> [i] | _ \<Rightarrow> [])"

definition item_result_ids :: "engine_item \<Rightarrow> string list" where
  "item_result_ids it =
     (case it of Yield (User (Some bs)) \<Rightarrow> concat (map block_result_ids bs) | _ \<Rightarrow> [])"

definition result_ids :: "engine_item list \<Rightarrow> string list" where
  "result_ids items = concat (map item_result_ids items)"

text \<open>
  The explorers that were delegated and whose result has not been seen, and the invariant
  of the two counters.
\<close>

definition pending_explorers :: "rstate \<Rightarrow> string set \<Rightarrow> string set" where
  "pending_explorers st seen =
     {k. (\<exists>i. mapGet (taskMap st) k = Some i \<and> ti_agentType i = ''codebase-explorer'') \<and>
         k \<notin> seen}"

definition explorer_inv :: "rstate \<Rightarrow> string set \<Rightarrow> bool" where
  "explorer_inv st seen \<longleftrightarrow>
     completedExplorers st + card (pending_explorers st seen) \<le> totalExplorers st"

text \<open>
  The throttle entry of an agent key (\<open>0\<close> when there is none), and the clock readings
  (compared, stored) of the activity events logged for a key, in order of emission.
\<close>

definition last_emit :: "rstate \<Rightarrow> string \<Rightarrow> int" where
  "last_emit st k = orElse (mapGet (activityThrottle st) k) 0"

definition stamp_of :: "string \<Rightarrow> emission \<Rightarrow> (int \<times> int) list" where
  "stamp_of k em =
     (case fst em of Some (k', t1, t2) \<Rightarrow> (if k' = k then [(t1, t2)] else []) | None \<Rightarrow> [])"

definition activity_stamps :: "string \<Rightarrow> emission list \<Rightarrow> (int \<times> int) list" where
  "activity_stamps k lg = concat (map (stamp_of k) lg)"

definition is_activity :: "event \<Rightarrow> bool" where
  "is_activity e = (case e of Activity a t d \<Rightarrow> True | _ \<Rightarrow> False)"

definition is_complete :: "event \<Rightarrow> bool" where
  "is_complete e = (case e of Complete s m \<Rightarrow> True | _ \<Rightarrow> False)"

text \<open>
  An entry of the log before the closing events: it is stamped exactly when it is an
  activity event, and it is not a \<open>complete\<close> event.
\<close>

definition regular :: "emission \<Rightarrow> bool" where
  "regular em \<longleftrightarrow>
     (is_activity (snd em) \<longleftrightarrow> fst em \<noteq> None) \<and> \<not> is_complete (snd em)"


definition assistant_blocks :: "engine_item \<Rightarrow> block list" where
  "assistant_blocks it =
     (case it of Yield (Assistant parent u (Some bs) t1 t2) \<Rightarrow> bs | _ \<Rightarrow> [])"




text \<open>
  A tool invocation is eligible for an activity event: a file read with its path, a
  pattern search or a glob search with its pattern.
\<close>

definition eligible :: "string \<Rightarrow> tool_input \<Rightarrow> bool" where
  "eligible toolName inp \<longleftrightarrow>
     toolName = ''Read'' \<and> truthy_opt (file_path inp) \<or>
     toolName = ''Grep'' \<and> truthy_opt (pattern inp) \<or>
     toolName = ''Glob'' \<and> truthy_opt (pattern inp)"

text \<open>
  The failure of the engine in a stream: the first thing that is a throw or a result
  message that is not a success.
\<close>

fun engine_failure :: "engine_item list \<Rightarrow> thrown option" where
  "engine_failure [] = None"
| "engine_failure (Throw e # rest) = Some e"
| "engine_failure (Yield m # rest) =
     (case m of
        Result r \<Rightarrow>
          (if subtype r = ''success'' then engine_failure rest
           else Some (ErrorObject (failure_text r)))
      | _ \<Rightarrow> engine_failure rest)"

text \<open>
  The order on phases, the number of delegations of the senior developer that the events
  show, and the invariant that links the phase of the run to the events emitted so far.
\<close>

definition phase_le :: "ReviewPhase \<Rightarrow> ReviewPhase \<Rightarrow> bool" where
  "phase_le p q \<longleftrightarrow> phase_rank p \<le> phase_rank q"

definition is_senior_started :: "event \<Rightarrow> bool" where
  "is_senior_started e =
     (case e of Subagent a d s \<Rightarrow> a = ''senior-developer'' \<and> s = started | _ \<Rightarrow> False)"

definition senior_delegations :: "event list \<Rightarrow> nat" where
  "senior_delegations evs = length (filter is_senior_started evs)"

definition has_senior :: "rstate \<Rightarrow> bool" where
  "has_senior st \<longleftrightarrow>
     (\<exists>k i. mapGet (taskMap st) k = Some i \<and> ti_agentType i = ''senior-developer'')"

definition phase_inv :: "rstate \<Rightarrow> emission list \<Rightarrow> bool" where
  "phase_inv st lg \<longleftrightarrow>
     (currentPhase st = synthesizing \<longrightarrow> seniorDevCompleted st) \<and>
     (seniorDevCompleted st \<longrightarrow> 1 \<le> senior_delegations (events lg)) \<and>
     (has_senior st \<longrightarrow> 1 \<le> senior_delegations (events lg)) \<and>
     (senior_delegations (events lg) \<le> 1 \<longrightarrow>
        sorted_wrt phase_le (phases_of (events lg)) \<and>
        (\<forall>p \<in> set (phases_of (events lg)). phase_le p (currentPhase st)))"

text \<open>
  A counter set and a usage record whose numbers are given natural numbers (token counts);
  a field of the record may be missing.
\<close>

definition counters :: "nat \<Rightarrow> nat \<Rightarrow> nat \<Rightarrow> nat \<Rightarrow> TokenUsage" where
  "counters a b c d =
     \<lparr>inputTokens = js_of_nat a, outputTokens = js_of_nat b, cacheReadTokens = js_of_nat c,
      cacheCreationTokens = js_of_nat d\<rparr>"

definition usage_record ::
    "nat option \<Rightarrow> nat option \<Rightarrow> nat option \<Rightarrow> nat option \<Rightarrow> api_usage" where
  "usage_record a b c d =
     \<lparr>input_tokens = map_option js_of_nat a, output_tokens = map_option js_of_nat b,
      cache_read_input_tokens = map_option js_of_nat c,
      cache_creation_input_tokens = map_option js_of_nat d\<rparr>"

section \<open>Example inputs\<close>

definition example_config :: config where
  "example_config =
     \<lparr>leadModel = ''opus'', explorerModel = ''sonnet'', seniorDevModel = ''sonnet''\<rparr>"

text \<open>A delegation by the lead agent, a message of the lead agent, the result of a task.\<close>

definition delegate :: "string \<Rightarrow> string \<Rightarrow> string \<Rightarrow> block" where
  "delegate tid ty d =
     ToolUse ''Task'' tid
       \<lparr>subagent_type = Some ty, description = Some d, file_path = None, pattern = None\<rparr> 0 0"

definition lead_message :: "block list \<Rightarrow> int \<Rightarrow> engine_item" where
  "lead_message bs t = Yield (Assistant None None (Some bs) t t)"

definition task_result :: "string \<Rightarrow> int \<Rightarrow> engine_item" where
  "task_result tid t = Yield (User (Some [ToolResult tid t t]))"

text \<open>
  The senior developer is delegated, answers, the lead agent writes text, and then
  delegates the senior developer a second time.
\<close>

definition regress_stream :: "engine_item list" where
  "regress_stream =
     [lead_message [delegate ''t1'' ''senior-developer'' ''feasibility''] 1700000000000,
      task_result ''t1'' 1700000060000,
      lead_message [TextBlock ''Here is the review.''] 1700000061000,
      lead_message [delegate ''t2'' ''senior-developer'' ''second opinion''] 1700000062000]"

text \<open>Three explorers are delegated and complete one after the other.\<close>

definition three_explorers :: "engine_item list" where
  "three_explorers =
     [lead_message [delegate ''a'' ''codebase-explorer'' ''auth'',
                    delegate ''b'' ''codebase-explorer'' ''storage'',
                    delegate ''c'' ''codebase-explorer'' ''routes''] 1700000000000,
      task_result ''a'' 1700000030000,
      task_result ''b'' 1700000040000,
      task_result ''c'' 1700000050000]"

text \<open>One explorer is delegated and the engine ends with a success.\<close>

definition one_explorer :: "engine_item list" where
  "one_explorer =
     [lead_message [delegate ''a'' ''codebase-explorer'' ''auth''] 1700000000000,
      Yield (Result \<lparr>subtype = ''success'', result = Some ''# Review'', errors_json = ''[]''\<rparr>)]"

text \<open>One explorer is delegated and its result is delivered twice.\<close>

definition duplicate_result :: "engine_item list" where
  "duplicate_result =
     [lead_message [delegate ''a'' ''codebase-explorer'' ''auth''] 1700000000000,
      Yield (User (Some [ToolResult ''a'' 1700000030000 1700000030000,
                         ToolResult ''a'' 1700000030000 1700000030000]))]"

text \<open>A store with one review, and a server that runs nothing.\<close>

definition example_meta :: "ReviewStatus \<Rightarrow> string option \<Rightarrow> ReviewMeta" where
  "example_meta s e =
     \<lparr>fileName = ''prd.md'', originalName = ''prd.md'', repoPaths = [''/repo''], status = s,
      createdAt = ''2026-02-01T10:00:00.000Z'', completedAt = None, err = e, usage = None,
      supplementaryFiles = None, additionalContext = None, webSearchEnabled = None\<rparr>"

definition example_store :: "ReviewStatus \<Rightarrow> string option \<Rightarrow> storage" where
  "example_store s e =
     \<lparr>metas = (\<lambda>rid. if rid = ''r1'' then Some (example_meta s e) else None),
      outputs = (\<lambda>rid. None)\<rparr>"

definition example_server :: "ReviewStatus \<Rightarrow> string option \<Rightarrow> server" where
  "example_server s e =
     \<lparr>store = example_store s e, reviewEmitters = (\<lambda>rid. None), background = [], created = 0\<rparr>"

text \<open>
  A subagent reads a file, runs a tool that is not eligible half a second later, and
  reads another file 700 ms after that.
\<close>

definition no_input :: tool_input where
  "no_input = \<lparr>subagent_type = None, description = None, file_path = None, pattern = None\<rparr>"

definition read_file :: "string \<Rightarrow> string \<Rightarrow> int \<Rightarrow> block" where
  "read_file tid path t = ToolUse ''Read'' tid (no_input\<lparr>file_path := Some path\<rparr>) t t"

definition sub_message :: "string \<Rightarrow> block list \<Rightarrow> int \<Rightarrow> engine_item" where
  "sub_message parent bs t = Yield (Assistant (Some parent) None (Some bs) t t)"

definition throttle_stream :: "engine_item list" where
  "throttle_stream =
     [lead_message [delegate ''a'' ''codebase-explorer'' ''auth''] 1700000000000,
      sub_message ''a'' [read_file ''u1'' ''src/auth.ts'' 1700000005000] 1700000005000,
      sub_message ''a'' [ToolUse ''Bash'' ''u2'' no_input 1700000005500 1700000005500]
        1700000005500,
      sub_message ''a'' [read_file ''u3'' ''src/session.ts'' 1700000006200] 1700000006200]"


text \<open>
  Twenty explorers are delegated in one message, and a user message carries 41 results for
  them: the results of the twenty, in order, twice, and the first one a third time.
\<close>

definition delegations :: "nat \<Rightarrow> block list" where
  "delegations n =
     map (\<lambda>i. delegate (string_of_nat i) ''codebase-explorer'' ''section'') [0..<n]"

definition cycled_results :: "nat \<Rightarrow> nat \<Rightarrow> block list" where
  "cycled_results n r =
     map (\<lambda>i. ToolResult (string_of_nat (i mod n)) 1700000030000 1700000030000) [0..<r]"

definition surplus_results :: "engine_item list" where
  "surplus_results =
     [lead_message (delegations 20) 1700000000000, Yield (User (Some (cycled_results 20 41)))]"

text \<open>A counter at 1 and two usage records, of \<open>2 ^ 53\<close> input tokens and of one.\<close>

definition huge_usage :: api_usage where
  "huge_usage = usage_record (Some (2 ^ 53)) None None None"

definition unit_usage :: api_usage where
  "unit_usage = usage_record (Some 1) None None None"

text \<open>The engine gives up after one delegation; the engine throws an error without text.\<close>

definition max_turns_stream :: "engine_item list" where
  "max_turns_stream =
     [lead_message [delegate ''a'' ''codebase-explorer'' ''auth''] 1700000000000,
      Yield (Result \<lparr>subtype = ''error_max_turns'', result = None, errors_json = ''[]''\<rparr>)]"

definition silent_throw :: "engine_item list" where
  "silent_throw = [Throw (ErrorObject [])]"

section \<open>Binary64 arithmetic\<close>

text \<open>
  The pieces of the rounding do what they are named for: \<open>dyadic m p\<close> is \<open>m * 2 ^ p\<close>,
  \<open>ilog2\<close> is the binary exponent, an integer rounds to itself, and a natural number up to
  \<open>2 ^ 53\<close> is a binary64 value.
\<close>

lemma dyadic_eq: "dyadic m p = of_int m * 2 powi p"
proof (cases "0 \<le> p")
  case True
  then show ?thesis by (simp add: dyadic_def power_int_def)
next
  case False
  then have "dyadic m p = of_int m / of_int (2 ^ nat (- p))"
    by (simp add: dyadic_def Fract_of_int_quotient)
  moreover have "(2::rat) powi p = 1 / 2 ^ nat (- p)"
    using False by (simp add: power_int_def power_inverse inverse_eq_divide power_divide)
  ultimately show ?thesis by simp
qed

lemma bitlen_powi:
  assumes "0 < a"
  shows "(2::rat) powi (bitlen a - 1) \<le> of_int a" and "of_int a < (2::rat) powi bitlen a"
proof -
  have b: "2 ^ nat (bitlen a - 1) \<le> a" "a < 2 ^ nat (bitlen a)"
    using bitlen_bounds [OF assms] by auto
  have pos: "1 \<le> bitlen a" using assms bitlen_nonneg [of a] bitlen_eq_zero_iff [of a]
    by (smt (verit))
  have "(of_int (2 ^ nat (bitlen a - 1)) :: rat) \<le> of_int a" using b(1) by (simp only: of_int_le_iff)
  then show "(2::rat) powi (bitlen a - 1) \<le> of_int a" using pos by (simp add: power_int_def)
  have "(of_int a :: rat) < of_int (2 ^ nat (bitlen a))" using b(2) by (simp only: of_int_less_iff)
  then show "of_int a < (2::rat) powi bitlen a" using pos by (simp add: power_int_def)
qed

lemma ilog2_bounds:
  assumes "0 < x"
  shows "2 powi ilog2 x \<le> x" and "x < 2 powi (ilog2 x + 1)"
proof -
  obtain a b where q: "quotient_of x = (a, b)" by (cases "quotient_of x")
  have bpos: "0 < b" using quotient_of_denom_pos [OF q] .
  have x: "x = of_int a / of_int b" using quotient_of_div [OF q] .
  have apos: "0 < a" using assms bpos by (simp add: x zero_less_divide_iff)
  define k where "k = bitlen a - bitlen b"
  have il: "ilog2 x = (if 2 powi k \<le> x then k else k - 1)"
    by (simp add: ilog2_def q k_def Let_def)
  have lo: "(2::rat) powi (k - 1) \<le> x"
  proof -
    have "(2::rat) powi (k - 1) = 2 powi (bitlen a - 1) / 2 powi bitlen b"
      by (simp add: k_def power_int_diff)
    also have "\<dots> \<le> of_int a / of_int b"
      using bitlen_powi [OF apos] bitlen_powi [OF bpos] bpos apos
      by (intro frac_le) simp_all
    finally show ?thesis by (simp add: x)
  qed
  have hi: "x < (2::rat) powi (k + 1)"
  proof -
    have "of_int a / of_int b < (2::rat) powi bitlen a / 2 powi (bitlen b - 1)"
      using bitlen_powi [OF apos] bitlen_powi [OF bpos] apos
      by (intro frac_less) simp_all
    also have "\<dots> = 2 powi (bitlen a - (bitlen b - 1))"
      by (rule power_int_diff [symmetric]) simp
    also have "bitlen a - (bitlen b - 1) = k + 1"
      by (simp add: k_def)
    finally show ?thesis by (simp add: x)
  qed
  show "2 powi ilog2 x \<le> x" using lo by (simp add: il)
  show "x < 2 powi (ilog2 x + 1)" using hi by (simp add: il)
qed

lemma round_half_even_of_int: "round_half_even (of_int n) = n"
  by (simp add: round_half_even_def)


lemma round64_of_nat:
  assumes "n \<le> 2 ^ 53"
  shows "round64 (of_nat n) = Finite (of_nat n)"
proof (cases "n = 0")
  case True
  then show ?thesis by (simp add: round64_def)
next
  case False
  define x :: rat where "x = of_nat n"
  have xpos: "0 < x" using False by (simp add: x_def)
  have xle: "x \<le> 2 ^ 53"
  proof -
    have "(of_nat n :: rat) \<le> of_nat (2 ^ 53)" using assms by (simp only: of_nat_le_iff)
    then show ?thesis by (simp add: x_def)
  qed
  define e where "e = ilog2 x"
  define p where "p = max e (- 1022) - 52"
  have lo: "2 powi e \<le> x" using ilog2_bounds(1) [OF xpos] by (simp add: e_def)
  have e53: "e \<le> 53"
  proof (rule ccontr)
    assume "\<not> e \<le> 53"
    then have "54 \<le> e" by simp
    then have "(2::rat) powi 54 \<le> 2 powi e" by (intro power_int_increasing) simp_all
    then show False using lo xle by simp
  qed
  have ex: "\<exists>k. x / 2 powi p = of_int k"
  proof (cases "p \<le> 0")
    case True
    have "x / 2 powi p = x * 2 powi (- p)" by (simp add: power_int_minus field_simps)
    also have "\<dots> = of_int (int n * 2 ^ nat (- p))" using True by (simp add: x_def power_int_def)
    finally show ?thesis by blast
  next
    case False
    then have p1: "p = 1" and e: "e = 53" using e53 by (auto simp: p_def)
    have "x = 2 ^ 53" using lo xle e by simp
    then have "x / 2 powi p = of_int (2 ^ 52)" by (simp add: p1)
    then show ?thesis by blast
  qed
  then obtain k where k: "x / 2 powi p = of_int k" by blast
  have r: "round_half_even (x / 2 powi p) = k" by (simp add: k round_half_even_of_int)
  have bk: "dyadic k p = x"
  proof -
    have "dyadic k p = (x / 2 powi p) * 2 powi p" by (simp add: dyadic_eq k)
    then show ?thesis by simp
  qed
  have "round64 x = Finite (dyadic k p)"
    using xpos e53 by (simp add: round64_def Let_def e_def [symmetric] p_def [symmetric] r)
  then show ?thesis by (simp add: bk x_def)
qed

section \<open>Usage accumulation\<close>

lemma js_add_of_nat:
  "a + b \<le> 2 ^ 53 \<Longrightarrow> js_add (js_of_nat a) (js_of_nat b) = js_of_nat (a + b)"
  using round64_of_nat [of "a + b"] by (simp add: js_of_nat_def)

lemma js_add_of_nat3:
  assumes "a + b + c \<le> 2 ^ 53"
  shows "js_add (js_add (js_of_nat a) (js_of_nat b)) (js_of_nat c) = js_of_nat (a + b + c)"
proof -
  have "a + b \<le> 2 ^ 53" using assms by simp
  then show ?thesis using assms by (simp add: js_add_of_nat)
qed

lemma addUsage_counters:
  assumes "a1 + orElse i1 0 \<le> 2 ^ 53" and "a2 + orElse i2 0 \<le> 2 ^ 53"
    and "a3 + orElse i3 0 \<le> 2 ^ 53" and "a4 + orElse i4 0 \<le> 2 ^ 53"
  shows "addUsage (counters a1 a2 a3 a4) (Some (usage_record i1 i2 i3 i4)) =
           counters (a1 + orElse i1 0) (a2 + orElse i2 0) (a3 + orElse i3 0) (a4 + orElse i4 0)"
proof -
  have z: "Finite 0 = js_of_nat 0" by (simp add: js_of_nat_def)
  have f: "\<And>i. orElse (map_option js_of_nat i) (js_of_nat 0) = js_of_nat (orElse i 0)"
    by (simp add: orElse_def split: option.splits)
  show ?thesis using assms
    by (simp add: addUsage_def counters_def usage_record_def z f js_add_of_nat)
qed

lemma round64_examples:
  "round64 0 = Finite 0" "round64 2 = Finite 2"
  "round64 9007199254740993 = Finite 9007199254740992"
  "round64 9007199254740994 = Finite 9007199254740994"
  by code_simp+

text \<open>
  C7 (as amended). Usage accumulation is order-independent as long as it is exact: for
  every counter set and every two incoming usage records whose numbers are token counts
  (natural numbers; a missing field counts as zero) such that, field by field, the counter
  and the two counts add up to at most \<open>2 ^ 53\<close>, adding the first record and then the second
  gives the same four counters as adding the second and then the first, namely the exact
  sums. A record that is absent changes nothing, in either order.
\<close>

theorem addUsage_order_independent:
  assumes "a1 + orElse i1 0 + orElse j1 0 \<le> 2 ^ 53"
    and "a2 + orElse i2 0 + orElse j2 0 \<le> 2 ^ 53"
    and "a3 + orElse i3 0 + orElse j3 0 \<le> 2 ^ 53"
    and "a4 + orElse i4 0 + orElse j4 0 \<le> 2 ^ 53"
  shows
    "addUsage (addUsage (counters a1 a2 a3 a4) (Some (usage_record i1 i2 i3 i4)))
       (Some (usage_record j1 j2 j3 j4)) =
     addUsage (addUsage (counters a1 a2 a3 a4) (Some (usage_record j1 j2 j3 j4)))
       (Some (usage_record i1 i2 i3 i4)) \<and>
     addUsage (addUsage (counters a1 a2 a3 a4) (Some (usage_record i1 i2 i3 i4)))
       (Some (usage_record j1 j2 j3 j4)) =
     counters (a1 + orElse i1 0 + orElse j1 0) (a2 + orElse i2 0 + orElse j2 0)
       (a3 + orElse i3 0 + orElse j3 0) (a4 + orElse i4 0 + orElse j4 0) \<and>
     addUsage (addUsage acc None) u = addUsage (addUsage acc u) None"
proof -
  have 1: "addUsage (addUsage (counters a1 a2 a3 a4) (Some (usage_record i1 i2 i3 i4)))
             (Some (usage_record j1 j2 j3 j4)) =
           counters (a1 + orElse i1 0 + orElse j1 0) (a2 + orElse i2 0 + orElse j2 0)
             (a3 + orElse i3 0 + orElse j3 0) (a4 + orElse i4 0 + orElse j4 0)"
    using assms by (simp add: addUsage_counters)
  have 2: "addUsage (addUsage (counters a1 a2 a3 a4) (Some (usage_record j1 j2 j3 j4)))
             (Some (usage_record i1 i2 i3 i4)) =
           counters (a1 + orElse j1 0 + orElse i1 0) (a2 + orElse j2 0 + orElse i2 0)
             (a3 + orElse j3 0 + orElse i3 0) (a4 + orElse j4 0 + orElse i4 0)"
    using assms by (simp add: addUsage_counters)
  have 3: "addUsage (addUsage acc None) u = addUsage (addUsage acc u) None"
    by (simp add: addUsage_def)
  show ?thesis unfolding 1 2 using 3 by (simp add: add.commute add.left_commute)
qed

theorem addUsage_order_independent_witness:
  "(1200::nat) + orElse (Some 350) 0 + orElse None 0 \<le> 2 ^ 53 \<and>
   (40::nat) + orElse None 0 + orElse (Some 95) 0 \<le> 2 ^ 53 \<and>
   (9000::nat) + orElse (Some 200) 0 + orElse (Some 7000) 0 \<le> 2 ^ 53 \<and>
   (0::nat) + orElse None 0 + orElse None 0 \<le> 2 ^ 53 \<and>
   addUsage (addUsage (counters 1200 40 9000 0) (Some (usage_record (Some 350) None (Some 200) None)))
     (Some (usage_record None (Some 95) (Some 7000) None)) =
   addUsage (addUsage (counters 1200 40 9000 0) (Some (usage_record None (Some 95) (Some 7000) None)))
     (Some (usage_record (Some 350) None (Some 200) None)) \<and>
   addUsage (addUsage (counters 1200 40 9000 0) (Some (usage_record (Some 350) None (Some 200) None)))
     (Some (usage_record None (Some 95) (Some 7000) None)) =
   counters 1550 135 16200 0"
  using addUsage_order_independent
          [of 1200 "Some 350" None 40 None "Some 95" 9000 "Some 200" "Some 7000" 0 None None
              emptyTokenUsage None]
  by (auto simp add: orElse_def)

text \<open>
  C7 as stated fails: binary64 addition rounds, and from \<open>2 ^ 53\<close> on the order of the
  additions shows. With the input counter at 1, adding \<open>2 ^ 53\<close> input tokens and then one
  gives 9007199254740992 (both sums round back to \<open>2 ^ 53\<close>); adding one and then \<open>2 ^ 53\<close>
  gives 9007199254740994.
\<close>

theorem addUsage_depends_on_order:
  "addUsage (addUsage (counters 1 0 0 0) (Some huge_usage)) (Some unit_usage) =
     counters (2 ^ 53) 0 0 0 \<and>
   addUsage (addUsage (counters 1 0 0 0) (Some unit_usage)) (Some huge_usage) =
     counters (2 ^ 53 + 2) 0 0 0 \<and>
   counters (2 ^ 53) 0 0 0 \<noteq> counters (2 ^ 53 + 2) 0 0 0"
  by (simp add: addUsage_def counters_def huge_usage_def unit_usage_def usage_record_def
        js_of_nat_def orElse_def round64_examples)

section \<open>The phase list of the client\<close>

lemma indexOf_PHASE_ORDER: "indexOf PHASE_ORDER p = int (phase_rank p)"
  by (cases p) (simp_all add: PHASE_ORDER_def phase_rank_def)

text \<open>
  C9. For every phase list of the client and every phase event naming the phase \<open>P\<close>,
  the handler keeps the length, the keys and the labels of the list; an entry for \<open>P\<close>
  becomes active and takes the message of the event; an entry for a phase strictly before
  \<open>P\<close> becomes completed (its message stays); an entry for a phase strictly after \<open>P\<close>
  is left as it was; and no entry other than one for \<open>P\<close> becomes active.
\<close>

theorem handleEvent_phase_marks:
  "length (handleEvent_phases (Phase P m) prev) = length prev \<and>
   (\<forall>i < length prev.
      key (handleEvent_phases (Phase P m) prev ! i) = key (prev ! i) \<and>
      label (handleEvent_phases (Phase P m) prev ! i) = label (prev ! i) \<and>
      (key (prev ! i) = P \<longrightarrow>
         phase_state (handleEvent_phases (Phase P m) prev ! i) = phase_active \<and>
         message (handleEvent_phases (Phase P m) prev ! i) = Some m) \<and>
      (phase_rank (key (prev ! i)) < phase_rank P \<longrightarrow>
         phase_state (handleEvent_phases (Phase P m) prev ! i) = phase_completed \<and>
         message (handleEvent_phases (Phase P m) prev ! i) = message (prev ! i)) \<and>
      (phase_rank P < phase_rank (key (prev ! i)) \<longrightarrow>
         handleEvent_phases (Phase P m) prev ! i = prev ! i) \<and>
      (phase_state (handleEvent_phases (Phase P m) prev ! i) = phase_active \<longrightarrow>
         key (prev ! i) = P \<or> phase_state (prev ! i) = phase_active))"
  by (auto simp: handleEvent_phases_def indexOf_PHASE_ORDER Let_def)

theorem handleEvent_phase_marks_witness:
  "length initial_phases = 4 \<and>
   map key initial_phases = [understanding, exploring, analyzing, synthesizing] \<and>
   map phase_state (handleEvent_phases (Phase analyzing ''Senior developer analyzing findings...'')
                      initial_phases) =
     [phase_completed, phase_completed, phase_active, phase_pending] \<and>
   map message (handleEvent_phases (Phase analyzing ''Senior developer analyzing findings...'')
                  initial_phases) =
     [None, None, Some ''Senior developer analyzing findings...'', None]"
  using handleEvent_phase_marks
          [of analyzing "''Senior developer analyzing findings...''" initial_phases]
  by (simp add: initial_phases_def PHASE_ORDER_def handleEvent_phases_def PHASE_LABELS_def)

section \<open>The stream endpoint and the rerun endpoint\<close>

text \<open>
  C4. When a client connects to the stream endpoint for a review whose stored status is
  completed or error, exactly one frame is written, the \<open>complete\<close> event with the stored
  status, whose message is the stored error when the status is error and is absent
  otherwise; the response is ended; the registry of emitters is unchanged, so no listener
  was attached; and the connection installs no polling interval, no keepalive and no close
  handler, so that no later tick attaches a listener either.
\<close>

theorem stream_terminal_job:
  "getReviewMeta (store srv) rid = Some meta \<Longrightarrow>
   status meta = completed \<or> status meta = error \<Longrightarrow>
   http_status (streamHandler srv rid conn) = 200 \<and>
   frames (streamHandler srv rid conn) =
     [DataFrame (Complete (status meta) (if status meta = error then err meta else None))] \<and>
   ended (streamHandler srv rid conn) \<and>
   emitters_after (streamHandler srv rid conn) = reviewEmitters srv \<and>
   \<not> pollInterval (streamHandler srv rid conn) \<and>
   \<not> keepalive (streamHandler srv rid conn) \<and>
   \<not> closeHandler (streamHandler srv rid conn) \<and>
   (\<forall>ems. pollTick ems rid conn (pollInterval (streamHandler srv rid conn)) = (ems, False))"
  by (auto simp: streamHandler_def pollTick_def)

theorem stream_terminal_job_witness:
  "getReviewMeta (store (example_server error (Some ''boom''))) ''r1'' =
     Some (example_meta error (Some ''boom'')) \<and>
   status (example_meta error (Some ''boom'')) = error \<and>
   frames (streamHandler (example_server error (Some ''boom'')) ''r1'' 7) =
     [DataFrame (Complete error (Some ''boom''))] \<and>
   ended (streamHandler (example_server error (Some ''boom'')) ''r1'' 7)"
proof -
  have h1: "getReviewMeta (store (example_server error (Some ''boom''))) ''r1'' =
              Some (example_meta error (Some ''boom''))"
    by (simp add: getReviewMeta_def example_server_def example_store_def)
  have h2: "status (example_meta error (Some ''boom'')) = completed \<or>
            status (example_meta error (Some ''boom'')) = error"
    by (simp add: example_meta_def)
  show ?thesis
    using h1 stream_terminal_job [OF h1 h2, of 7]
    by (simp add: example_meta_def)
qed

text \<open>
  C6. For a stored review, the rerun operation answers 409 and leaves the server (the
  store, the registry, the background processes) as it was exactly when the stored status
  is running; for every other status it answers 200, sets the stored status of the review
  to pending (nothing else in the store changes), registers a new emitter for the review
  and starts a new background process.
\<close>

theorem rerun_conflict_iff_running:
  "getReviewMeta (store srv) rid = Some meta \<Longrightarrow>
   ((fst (rerunHandler srv rid nowIso) = 409 \<and> snd (snd (rerunHandler srv rid nowIso)) = srv)
      \<longleftrightarrow> status meta = running) \<and>
   (status meta \<noteq> running \<longrightarrow>
      fst (rerunHandler srv rid nowIso) = 200 \<and>
      getReviewMeta (store (snd (snd (rerunHandler srv rid nowIso)))) rid =
        Some (meta\<lparr>status := pending\<rparr>) \<and>
      (\<forall>other. other \<noteq> rid \<longrightarrow>
         getReviewMeta (store (snd (snd (rerunHandler srv rid nowIso)))) other =
           getReviewMeta (store srv) other) \<and>
      outputs (store (snd (snd (rerunHandler srv rid nowIso)))) = outputs (store srv) \<and>
      background (snd (snd (rerunHandler srv rid nowIso))) = background srv @ [rid] \<and>
      reviewEmitters (snd (snd (rerunHandler srv rid nowIso))) rid =
        Some \<lparr>emitter_id = created srv, listeners = []\<rparr>)"
  by (auto simp: rerunHandler_def updateReviewStatus_def getReviewMeta_def
        startReviewProcess_def truthy_opt_def Let_def)

theorem rerun_conflict_iff_running_witness:
  "getReviewMeta (store (example_server error (Some ''boom''))) ''r1'' =
     Some (example_meta error (Some ''boom'')) \<and>
   status (example_meta error (Some ''boom'')) \<noteq> running \<and>
   fst (rerunHandler (example_server error (Some ''boom'')) ''r1'' ''2026-02-01T10:05:00.000Z'') = 200 \<and>
   getReviewMeta
     (store (snd (snd (rerunHandler (example_server error (Some ''boom'')) ''r1''
                         ''2026-02-01T10:05:00.000Z'')))) ''r1'' =
     Some (example_meta pending (Some ''boom'')) \<and>
   background (snd (snd (rerunHandler (example_server error (Some ''boom'')) ''r1''
                           ''2026-02-01T10:05:00.000Z''))) = [''r1''] \<and>
   fst (rerunHandler (example_server running None) ''r1'' ''2026-02-01T10:05:00.000Z'') = 409"
proof -
  have h1: "getReviewMeta (store (example_server error (Some ''boom''))) ''r1'' =
              Some (example_meta error (Some ''boom''))"
    by (simp add: getReviewMeta_def example_server_def example_store_def)
  have h2: "getReviewMeta (store (example_server running None)) ''r1'' =
              Some (example_meta running None)"
    by (simp add: getReviewMeta_def example_server_def example_store_def)
  show ?thesis
    using h1 rerun_conflict_iff_running [OF h1, of "''2026-02-01T10:05:00.000Z''"]
      rerun_conflict_iff_running [OF h2, of "''2026-02-01T10:05:00.000Z''"]
    by (simp add: example_meta_def example_server_def)
qed

section \<open>The counters of the explorers\<close>

lemma mapGet_mapSet: "mapGet (mapSet k v m) k' = (if k' = k then Some v else mapGet m k')"
  by (induction m) auto

lemma mapGet_Some_key: "mapGet m k = Some v \<Longrightarrow> k \<in> fst ` set m"
  by (induction m) (auto split: if_splits)

lemma finite_pending: "finite (pending_explorers st seen)"
proof -
  have "pending_explorers st seen \<subseteq> fst ` set (taskMap st)"
    by (auto simp: pending_explorers_def dest: mapGet_Some_key)
  then show ?thesis by (rule finite_subset) simp
qed

lemma explorer_inv_cong:
  "explorer_inv st seen \<Longrightarrow>
   taskMap st' = taskMap st \<and> totalExplorers st' = totalExplorers st \<and>
   completedExplorers st' = completedExplorers st \<Longrightarrow>
   explorer_inv st' seen"
  by (simp add: explorer_inv_def pending_explorers_def)

lemma leadTextBranch_core:
  "leadTextBranch st parent b = (st', lg) \<Longrightarrow>
   taskMap st' = taskMap st \<and> totalExplorers st' = totalExplorers st \<and>
   completedExplorers st' = completedExplorers st"
  by (auto simp: leadTextBranch_def emitPhase_def split: block.splits if_splits)

lemma activityBranch_core:
  "activityBranch st parent b = (st', lg) \<Longrightarrow>
   taskMap st' = taskMap st \<and> totalExplorers st' = totalExplorers st \<and>
   completedExplorers st' = completedExplorers st"
  by (auto simp: activityBranch_def Let_def split: block.splits option.splits if_splits)

lemma emitUsageIfDue_core:
  "emitUsageIfDue st t1 t2 = (st', lg) \<Longrightarrow>
   taskMap st' = taskMap st \<and> totalExplorers st' = totalExplorers st \<and>
   completedExplorers st' = completedExplorers st"
  by (auto simp: emitUsageIfDue_def split: if_splits)

lemma accumulateUsage_core:
  "taskMap (accumulateUsage st parent u) = taskMap st \<and>
   totalExplorers (accumulateUsage st parent u) = totalExplorers st \<and>
   completedExplorers (accumulateUsage st parent u) = completedExplorers st"
  by (auto simp: accumulateUsage_def Let_def split: option.splits if_splits)

lemma card_pending_insert:
  assumes "finite A" "B \<subseteq> insert x A"
  shows "card B \<le> Suc (card A)"
proof -
  have "card B \<le> card (insert x A)" using assms by (intro card_mono) auto
  also have "\<dots> \<le> Suc (card A)" using assms(1) by (simp add: card_insert_if)
  finally show ?thesis .
qed

lemma taskBranch_inv:
  assumes "explorer_inv st seen" "taskBranch cfg st b = (st', lg)"
  shows "explorer_inv st' seen"
proof (cases b)
  case (ToolUse name tid inp t1 t2)
  show ?thesis
  proof (cases "name = ''Task''")
    case False
    with assms ToolUse show ?thesis by (simp add: taskBranch_def)
  next
    case True
    let ?ty = "orElse (subagent_type inp) ''unknown''"
    let ?info = "\<lparr>ti_agentType = ?ty, ti_description = orElse (description inp) []\<rparr>"
    have tm: "taskMap st' = mapSet tid ?info (taskMap st)"
      and cp: "completedExplorers st' = completedExplorers st"
      and tot: "totalExplorers st' = (if ?ty = ''codebase-explorer'' then totalExplorers st + 1 else totalExplorers st)"
      using assms(2) ToolUse True
      by (auto simp: taskBranch_def Let_def emitPhase_def split: if_splits)
    show ?thesis
    proof (cases "?ty = ''codebase-explorer''")
      case True
      have "pending_explorers st' seen \<subseteq> insert tid (pending_explorers st seen)"
        by (auto simp: pending_explorers_def tm mapGet_mapSet split: if_splits)
      then have "card (pending_explorers st' seen) \<le> Suc (card (pending_explorers st seen))"
        by (rule card_pending_insert [OF finite_pending])
      with assms(1) cp tot True show ?thesis by (simp add: explorer_inv_def)
    next
      case False
      have "pending_explorers st' seen \<subseteq> pending_explorers st seen"
        using False by (auto simp: pending_explorers_def tm mapGet_mapSet split: if_splits)
      then have "card (pending_explorers st' seen) \<le> card (pending_explorers st seen)"
        by (intro card_mono finite_pending)
      with assms(1) cp tot False show ?thesis by (simp add: explorer_inv_def)
    qed
  qed
qed (use assms in \<open>simp_all add: taskBranch_def\<close>)

lemma assistantBlock_inv:
  assumes "explorer_inv st seen" "assistantBlock cfg st parent b = (st', lg)"
  shows "explorer_inv st' seen"
proof -
  obtain s1 e1 where 1: "leadTextBranch st parent b = (s1, e1)" by force
  obtain s2 e2 where 2: "taskBranch cfg s1 b = (s2, e2)" by force
  obtain s3 e3 where 3: "activityBranch s2 parent b = (s3, e3)" by force
  have "st' = s3" using assms(2) 1 2 3 by (simp add: assistantBlock_def)
  moreover have "explorer_inv s1 seen"
    using assms(1) leadTextBranch_core [OF 1] by (rule explorer_inv_cong)
  then have "explorer_inv s2 seen" using 2 by (rule taskBranch_inv)
  then have "explorer_inv s3 seen"
    using activityBranch_core [OF 3] by (rule explorer_inv_cong)
  ultimately show ?thesis by simp
qed

lemma assistantBlocks_inv:
  "explorer_inv st seen \<Longrightarrow> assistantBlocks cfg st parent bs = (st', lg) \<Longrightarrow> explorer_inv st' seen"
proof (induction bs arbitrary: st st' lg)
  case Nil
  then show ?case by simp
next
  case (Cons b bs)
  obtain s1 e1 where 1: "assistantBlock cfg st parent b = (s1, e1)" by force
  obtain s2 e2 where 2: "assistantBlocks cfg s1 parent bs = (s2, e2)" by force
  have "st' = s2" using Cons.prems(2) 1 2 by simp
  moreover have "explorer_inv s1 seen" using Cons.prems(1) 1 by (rule assistantBlock_inv)
  then have "explorer_inv s2 seen" using 2 by (rule Cons.IH)
  ultimately show ?case by simp
qed

lemma userBlock_inv:
  assumes "explorer_inv st seen" "userBlock st b = (st', lg)" "set (block_result_ids b) \<inter> seen = {}"
  shows "explorer_inv st' (seen \<union> set (block_result_ids b))"
proof (cases b)
  case (ToolResult tid t1 t2)
  have nin: "tid \<notin> seen" using assms(3) ToolResult by (simp add: block_result_ids_def)
  have ids: "seen \<union> set (block_result_ids b) = insert tid seen"
    using ToolResult by (simp add: block_result_ids_def)
  show ?thesis
  proof (cases "truthy tid \<and> (\<exists>i. mapGet (taskMap st) tid = Some i)")
    case False
    then have "st' = st" using assms(2) ToolResult by (auto simp: userBlock_def split: option.splits)
    moreover have "pending_explorers st (insert tid seen) \<subseteq> pending_explorers st seen"
      by (auto simp: pending_explorers_def)
    then have "card (pending_explorers st (insert tid seen)) \<le> card (pending_explorers st seen)"
      by (intro card_mono finite_pending)
    ultimately show ?thesis using assms(1) ids by (simp add: explorer_inv_def)
  next
    case True
    then obtain i where i: "mapGet (taskMap st) tid = Some i" and tr: "truthy tid" by blast
    have tm: "taskMap st' = taskMap st" and tot: "totalExplorers st' = totalExplorers st"
      and cp: "completedExplorers st' =
          (if ti_agentType i = ''codebase-explorer'' then completedExplorers st + 1 else completedExplorers st)"
      using assms(2) ToolResult i tr
      by (auto simp: userBlock_def Let_def emitUsageIfDue_def split: if_splits)
    show ?thesis
    proof (cases "ti_agentType i = ''codebase-explorer''")
      case True
      have mem: "tid \<in> pending_explorers st seen"
        using i True nin by (simp add: pending_explorers_def)
      have "pending_explorers st' (insert tid seen) = pending_explorers st seen - {tid}"
        by (auto simp: pending_explorers_def tm)
      then have "card (pending_explorers st' (insert tid seen)) = card (pending_explorers st seen) - 1"
        using mem finite_pending by simp
      moreover have "card (pending_explorers st seen) > 0"
        using mem finite_pending by (auto simp: card_gt_0_iff)
      ultimately show ?thesis using assms(1) cp tot True ids by (simp add: explorer_inv_def)
    next
      case False
      have "pending_explorers st' (insert tid seen) \<subseteq> pending_explorers st seen"
        by (auto simp: pending_explorers_def tm)
      then have "card (pending_explorers st' (insert tid seen)) \<le> card (pending_explorers st seen)"
        by (intro card_mono finite_pending)
      then show ?thesis using assms(1) cp tot False ids by (simp add: explorer_inv_def)
    qed
  qed
qed (use assms in \<open>simp_all add: userBlock_def block_result_ids_def\<close>)

lemma userBlocks_inv:
  "explorer_inv st seen \<Longrightarrow> userBlocks st bs = (st', lg) \<Longrightarrow>
   distinct (concat (map block_result_ids bs)) \<Longrightarrow>
   set (concat (map block_result_ids bs)) \<inter> seen = {} \<Longrightarrow>
   explorer_inv st' (seen \<union> set (concat (map block_result_ids bs)))"
proof (induction bs arbitrary: st st' lg seen)
  case Nil
  then show ?case by simp
next
  case (Cons b bs)
  obtain s1 e1 where 1: "userBlock st b = (s1, e1)" by force
  obtain s2 e2 where 2: "userBlocks s1 bs = (s2, e2)" by force
  have st': "st' = s2" using Cons.prems(2) 1 2 by simp
  have a: "explorer_inv s1 (seen \<union> set (block_result_ids b))"
    using Cons.prems(1) 1 Cons.prems(4) by (intro userBlock_inv) auto
  have "explorer_inv s2 ((seen \<union> set (block_result_ids b)) \<union> set (concat (map block_result_ids bs)))"
    using a 2 Cons.prems(3,4) by (intro Cons.IH) auto
  then show ?case using st' by (simp add: Un_assoc)
qed

lemma handleMessage_inv:
  assumes "explorer_inv st seen" "handleMessage cfg st m = (st', lg, r)"
    "distinct (item_result_ids (Yield m))" "set (item_result_ids (Yield m)) \<inter> seen = {}"
  shows "explorer_inv st' (seen \<union> set (item_result_ids (Yield m)))"
proof (cases m)
  case SystemInit
  with assms show ?thesis by (simp add: handleMessage_def item_result_ids_def)
next
  case (Assistant parent u content t1 t2)
  let ?s1 = "accumulateUsage st parent u"
  obtain s2 e2 where 2: "(case content of None \<Rightarrow> (?s1, []) | Some bs \<Rightarrow> assistantBlocks cfg ?s1 parent bs) = (s2, e2)"
    by force
  obtain s3 e3 where 3: "emitUsageIfDue s2 t1 t2 = (s3, e3)" by force
  have st': "st' = s3" using assms(2) Assistant 2 3 by (simp add: handleMessage_def)
  have "explorer_inv ?s1 seen"
    using assms(1) accumulateUsage_core [of st parent u] by (rule explorer_inv_cong)
  then have "explorer_inv s2 seen"
    using 2 by (cases content) (auto dest: assistantBlocks_inv)
  then have "explorer_inv s3 seen"
    using emitUsageIfDue_core [OF 3] by (rule explorer_inv_cong)
  then show ?thesis using st' Assistant by (simp add: item_result_ids_def)
next
  case (User content)
  show ?thesis
  proof (cases content)
    case None
    with assms User show ?thesis by (simp add: handleMessage_def item_result_ids_def)
  next
    case (Some bs)
    obtain s1 e1 where 1: "userBlocks st bs = (s1, e1)" by force
    have "st' = s1" using assms(2) User Some 1 by (simp add: handleMessage_def)
    moreover have "explorer_inv s1 (seen \<union> set (concat (map block_result_ids bs)))"
      using assms(1) 1 assms(3,4) User Some
      by (intro userBlocks_inv) (simp_all add: item_result_ids_def)
    ultimately show ?thesis using User Some by (simp add: item_result_ids_def)
  qed
next
  case (Result r)
  have "taskMap st' = taskMap st \<and> totalExplorers st' = totalExplorers st \<and>
        completedExplorers st' = completedExplorers st"
    using assms(2) Result by (auto simp: handleMessage_def split: if_splits)
  with assms(1) have "explorer_inv st' seen" by (rule explorer_inv_cong)
  then show ?thesis using Result by (simp add: item_result_ids_def)
next
  case OtherMessage
  with assms show ?thesis by (simp add: handleMessage_def item_result_ids_def)
qed

lemma explorer_inv_weaken: "explorer_inv st seen \<Longrightarrow> completedExplorers st \<le> totalExplorers st"
  by (simp add: explorer_inv_def)

lemma messageLoop_bound:
  "explorer_inv st seen \<Longrightarrow> messageLoop cfg st items = (st', lg, r) \<Longrightarrow>
   distinct (result_ids items) \<Longrightarrow> set (result_ids items) \<inter> seen = {} \<Longrightarrow>
   completedExplorers st' \<le> totalExplorers st'"
proof (induction items arbitrary: st st' lg r seen)
  case Nil
  then show ?case by (simp add: explorer_inv_weaken)
next
  case (Cons it items)
  show ?case
  proof (cases it)
    case (Throw e)
    with Cons.prems show ?thesis by (simp add: explorer_inv_weaken)
  next
    case (Yield m)
    obtain s1 e1 r1 where 1: "handleMessage cfg st m = (s1, e1, r1)" by (metis prod_cases3)
    have d: "distinct (item_result_ids (Yield m))" "set (item_result_ids (Yield m)) \<inter> seen = {}"
      "distinct (result_ids items)"
      "set (result_ids items) \<inter> (seen \<union> set (item_result_ids (Yield m))) = {}"
      using Cons.prems(3,4) Yield by (auto simp: result_ids_def)
    have a: "explorer_inv s1 (seen \<union> set (item_result_ids (Yield m)))"
      using Cons.prems(1) 1 d(1,2) by (rule handleMessage_inv)
    show ?thesis
    proof (cases r1)
      case (Some err)
      then have "st' = s1" using Cons.prems(2) Yield 1 by simp
      then show ?thesis using a by (simp add: explorer_inv_weaken)
    next
      case None
      obtain s2 e2 r2 where 2: "messageLoop cfg s1 items = (s2, e2, r2)" by (metis prod_cases3)
      have "st' = s2" using Cons.prems(2) Yield 1 None 2 by simp
      moreover have "completedExplorers s2 \<le> totalExplorers s2"
        using a 2 d(3,4) by (rule Cons.IH)
      ultimately show ?thesis by simp
    qed
  qed
qed

lemma result_ids_append: "result_ids (xs @ ys) = result_ids xs @ result_ids ys"
  by (simp add: result_ids_def)

text \<open>
  C3 (as amended). For every stream in which no \<open>tool_use_id\<close> is answered by more than
  one \<open>tool_result\<close> block, after every prefix of the stream the count of completed
  explorers is at most the count of delegated explorers. (A point inside a message is the
  end of the stream cut there.)
\<close>

theorem completed_le_total:
  assumes "distinct (result_ids items)"
  shows "completedExplorers (stateAfter cfg (take n items)) \<le>
         totalExplorers (stateAfter cfg (take n items))"
proof -
  have "result_ids items = result_ids (take n items) @ result_ids (drop n items)"
    by (simp flip: result_ids_append)
  with assms have d: "distinct (result_ids (take n items))" by (metis distinct_append)
  have i: "explorer_inv (fst runStart) {}"
    by (simp add: runStart_def emitPhase_def initial_state_def explorer_inv_def
          pending_explorers_def)
  obtain s l r where "messageLoop cfg (fst runStart) (take n items) = (s, l, r)"
    by (metis prod_cases3)
  then show ?thesis using messageLoop_bound [OF i _ d] by (simp add: stateAfter_def)
qed

theorem completed_le_total_witness:
  "distinct (result_ids three_explorers) \<and>
   completedExplorers (stateAfter example_config (take 3 three_explorers)) = 2 \<and>
   totalExplorers (stateAfter example_config (take 3 three_explorers)) = 3 \<and>
   completedExplorers (stateAfter example_config (take 3 three_explorers)) \<le>
     totalExplorers (stateAfter example_config (take 3 three_explorers))"
proof -
  have d: "distinct (result_ids three_explorers)" by code_simp
  have c: "completedExplorers (stateAfter example_config (take 3 three_explorers)) = 2"
    by code_simp
  have t: "totalExplorers (stateAfter example_config (take 3 three_explorers)) = 3"
    by code_simp
  show ?thesis using d c t completed_le_total [OF d, of example_config 3] by simp
qed

text \<open>
  C3 as stated fails: when the result of the one delegated explorer is delivered twice,
  two explorers are counted as completed and one as delegated.
\<close>

theorem completed_exceeds_total_on_duplicate:
  "completedExplorers (stateAfter example_config duplicate_result) = 2 \<and>
   totalExplorers (stateAfter example_config duplicate_result) = 1 \<and>
   \<not> completedExplorers (stateAfter example_config duplicate_result) \<le>
       totalExplorers (stateAfter example_config duplicate_result)"
proof -
  have c: "completedExplorers (stateAfter example_config duplicate_result) = 2" by code_simp
  have t: "totalExplorers (stateAfter example_config duplicate_result) = 1" by code_simp
  show ?thesis using c t by simp
qed

section \<open>The percent of the exploring phase\<close>

lemma phase_at_append: "phase_at (evs @ new) = fold phase_step new (phase_at evs)"
  by (simp add: phase_at_def)

lemma progress_ok_append:
  "progress_ok pre (a @ b) \<longleftrightarrow> progress_ok pre a \<and> progress_ok (pre @ a) b"
  by (induction a arbitrary: pre) auto

lemma progress_percent_tracks:
  "tracks st evs \<Longrightarrow> phase_at evs = exploring \<Longrightarrow>
   progress_percent st = exploring_percent (explorers_finished evs) (explorers_started evs)"
  by (simp add: tracks_def progress_percent_def exploring_percent_def)

lemmas obs_defs = tracks_def phase_at_append phase_step_def explorers_started_def explorers_finished_def
  is_explorer_def events_def emit_def

lemma emitProgress_ok:
  "tracks st pre \<Longrightarrow> progress_ok pre (events (emitProgress st)) \<and> tracks st (pre @ events (emitProgress st))"
  using progress_percent_tracks [of st pre]
  by (simp add: emitProgress_def obs_defs)

lemma leadTextBranch_ok:
  "tracks st pre \<Longrightarrow> leadTextBranch st parent b = (st', lg) \<Longrightarrow>
   tracks st' (pre @ events lg) \<and> progress_ok pre (events lg)"
  by (auto simp: leadTextBranch_def emitPhase_def emitProgress_def obs_defs
           split: block.splits if_splits)

lemma activityBranch_ok:
  "tracks st pre \<Longrightarrow> activityBranch st parent b = (st', lg) \<Longrightarrow>
   tracks st' (pre @ events lg) \<and> progress_ok pre (events lg)"
  by (auto simp: activityBranch_def Let_def obs_defs split: block.splits option.splits if_splits)

lemma emitUsageIfDue_ok:
  "tracks st pre \<Longrightarrow> emitUsageIfDue st t1 t2 = (st', lg) \<Longrightarrow>
   tracks st' (pre @ events lg) \<and> progress_ok pre (events lg)"
  by (auto simp: emitUsageIfDue_def obs_defs split: if_splits)

lemma accumulateUsage_ok:
  "tracks st pre \<Longrightarrow> tracks (accumulateUsage st parent u) pre"
  by (auto simp: accumulateUsage_def Let_def tracks_def split: option.splits if_splits)

lemma taskBranch_ok:
  assumes "tracks st pre" "taskBranch cfg st b = (st', lg)"
  shows "tracks st' (pre @ events lg) \<and> progress_ok pre (events lg)"
proof (cases b)
  case (ToolUse name tid inp t1 t2)
  show ?thesis
  proof (cases "name = ''Task''")
    case False
    with assms ToolUse show ?thesis by (simp add: taskBranch_def events_def)
  next
    case True
    let ?ty = "orElse (subagent_type inp) ''unknown''"
    let ?d = "orElse (description inp) []"
    obtain s3 e3 where lg: "lg = e3 @ [emit (Subagent ?ty ?d started)] @ emitProgress s3" and st': "st' = s3"
      and e3: "events e3 = [] \<and> currentPhase s3 = currentPhase st \<or> (\<exists>m. events e3 = [Phase (currentPhase s3) m])"
      and tot: "totalExplorers s3 = (if ?ty = ''codebase-explorer'' then totalExplorers st + 1 else totalExplorers st)"
      and cp: "completedExplorers s3 = completedExplorers st"
      using assms(2) ToolUse True
      by (auto simp: taskBranch_def Let_def emitPhase_def events_def emit_def split: if_splits)
    let ?mid = "pre @ events e3 @ [Subagent ?ty ?d started]"
    have tr: "tracks s3 ?mid"
      using assms(1) e3 tot cp by (auto simp: obs_defs)
    have ok1: "progress_ok pre (events e3 @ [Subagent ?ty ?d started])"
      using e3 by (auto simp: progress_ok_append)
    have "progress_ok ?mid (events (emitProgress s3)) \<and> tracks s3 (?mid @ events (emitProgress s3))"
      using tr by (rule emitProgress_ok)
    then show ?thesis using ok1 lg st'
      by (simp add: progress_ok_append events_def emit_def)
  qed
qed (use assms in \<open>simp_all add: taskBranch_def events_def\<close>)

lemma userBlock_ok:
  assumes "tracks st pre" "userBlock st b = (st', lg)"
  shows "tracks st' (pre @ events lg) \<and> progress_ok pre (events lg)"
proof (cases b)
  case (ToolResult tid t1 t2)
  show ?thesis
  proof (cases "truthy tid \<and> (\<exists>i. mapGet (taskMap st) tid = Some i)")
    case False
    then have "st' = st \<and> lg = []"
      using assms(2) ToolResult by (auto simp: userBlock_def split: option.splits)
    with assms(1) show ?thesis by (simp add: events_def)
  next
    case True
    then obtain i where i: "mapGet (taskMap st) tid = Some i" and tr: "truthy tid" by blast
    let ?s1 = "(if ti_agentType i = ''codebase-explorer''
                then st\<lparr>completedExplorers := completedExplorers st + 1\<rparr>
                else if ti_agentType i = ''senior-developer''
                then st\<lparr>seniorDevCompleted := True\<rparr> else st)"
    let ?ev = "Subagent (ti_agentType i) (ti_description i) finished"
    obtain s2 e2 where u: "emitUsageIfDue (?s1\<lparr>lastUsageEmitTime := 0\<rparr>) t1 t2 = (s2, e2)" by force
    have lg: "lg = [emit ?ev] @ emitProgress ?s1 @ e2" and st': "st' = s2"
      using assms(2) ToolResult i tr u by (auto simp: userBlock_def Let_def)
    have tr1: "tracks ?s1 (pre @ [?ev])"
      using assms(1) by (auto simp: obs_defs)
    have p: "progress_ok (pre @ [?ev]) (events (emitProgress ?s1))"
      and tr2: "tracks ?s1 ((pre @ [?ev]) @ events (emitProgress ?s1))"
      using emitProgress_ok [OF tr1] by auto
    have "tracks (?s1\<lparr>lastUsageEmitTime := 0\<rparr>) ((pre @ [?ev]) @ events (emitProgress ?s1))"
      using tr2 by (simp add: tracks_def)
    from emitUsageIfDue_ok [OF this u]
    show ?thesis using p lg st' by (simp add: progress_ok_append events_def emit_def)
  qed
qed (use assms in \<open>simp_all add: userBlock_def events_def\<close>)


lemma events_append: "events (a @ b) = events a @ events b"
  by (simp add: events_def)

lemma events_Nil: "events [] = []"
  by (simp add: events_def)

lemma ok_step:
  assumes "tracks st pre"
    and "\<And>pre. tracks st pre \<Longrightarrow> tracks s1 (pre @ events e1) \<and> progress_ok pre (events e1)"
    and "\<And>pre. tracks s1 pre \<Longrightarrow> tracks s2 (pre @ events e2) \<and> progress_ok pre (events e2)"
  shows "tracks s2 (pre @ events (e1 @ e2)) \<and> progress_ok pre (events (e1 @ e2))"
proof -
  have 1: "tracks s1 (pre @ events e1)" "progress_ok pre (events e1)"
    using assms(1,2) by auto
  have "tracks s2 ((pre @ events e1) @ events e2) \<and> progress_ok (pre @ events e1) (events e2)"
    using 1(1) assms(3) by blast
  then show ?thesis using 1(2) by (simp add: events_append progress_ok_append)
qed

lemma assistantBlock_ok:
  assumes "tracks st pre" "assistantBlock cfg st parent b = (st', lg)"
  shows "tracks st' (pre @ events lg) \<and> progress_ok pre (events lg)"
proof -
  obtain s1 e1 where 1: "leadTextBranch st parent b = (s1, e1)" by force
  obtain s2 e2 where 2: "taskBranch cfg s1 b = (s2, e2)" by force
  obtain s3 e3 where 3: "activityBranch s2 parent b = (s3, e3)" by force
  have eq: "st' = s3" "lg = e1 @ e2 @ e3" using assms(2) 1 2 3 by (simp_all add: assistantBlock_def)
  have a: "tracks s2 (pre @ events (e1 @ e2)) \<and> progress_ok pre (events (e1 @ e2))"
    if "tracks st pre" for pre
    using that leadTextBranch_ok [OF _ 1] taskBranch_ok [OF _ 2] by (rule ok_step)
  have "tracks s3 (pre @ events ((e1 @ e2) @ e3)) \<and> progress_ok pre (events ((e1 @ e2) @ e3))"
    using assms(1) a activityBranch_ok [OF _ 3] by (rule ok_step)
  then show ?thesis using eq by simp
qed

lemma assistantBlocks_ok:
  "tracks st pre \<Longrightarrow> assistantBlocks cfg st parent bs = (st', lg) \<Longrightarrow>
   tracks st' (pre @ events lg) \<and> progress_ok pre (events lg)"
proof (induction bs arbitrary: st st' lg pre)
  case Nil
  then show ?case by (simp add: events_Nil)
next
  case (Cons b bs)
  obtain s1 e1 where 1: "assistantBlock cfg st parent b = (s1, e1)" by force
  obtain s2 e2 where 2: "assistantBlocks cfg s1 parent bs = (s2, e2)" by force
  have eq: "st' = s2" "lg = e1 @ e2" using Cons.prems(2) 1 2 by simp_all
  have "tracks s2 (pre @ events (e1 @ e2)) \<and> progress_ok pre (events (e1 @ e2))"
    using Cons.prems(1) assistantBlock_ok [OF _ 1] Cons.IH [OF _ 2] by (rule ok_step)
  then show ?case using eq by simp
qed

lemma userBlocks_ok:
  "tracks st pre \<Longrightarrow> userBlocks st bs = (st', lg) \<Longrightarrow>
   tracks st' (pre @ events lg) \<and> progress_ok pre (events lg)"
proof (induction bs arbitrary: st st' lg pre)
  case Nil
  then show ?case by (simp add: events_Nil)
next
  case (Cons b bs)
  obtain s1 e1 where 1: "userBlock st b = (s1, e1)" by force
  obtain s2 e2 where 2: "userBlocks s1 bs = (s2, e2)" by force
  have eq: "st' = s2" "lg = e1 @ e2" using Cons.prems(2) 1 2 by simp_all
  have "tracks s2 (pre @ events (e1 @ e2)) \<and> progress_ok pre (events (e1 @ e2))"
    using Cons.prems(1) userBlock_ok [OF _ 1] Cons.IH [OF _ 2] by (rule ok_step)
  then show ?case using eq by simp
qed

lemma handleMessage_ok:
  assumes "tracks st pre" "handleMessage cfg st m = (st', lg, r)"
  shows "tracks st' (pre @ events lg) \<and> progress_ok pre (events lg)"
proof (cases m)
  case (Assistant parent u content t1 t2)
  let ?s1 = "accumulateUsage st parent u"
  obtain s2 e2 where 2: "(case content of None \<Rightarrow> (?s1, []) | Some bs \<Rightarrow> assistantBlocks cfg ?s1 parent bs) = (s2, e2)"
    by force
  obtain s3 e3 where 3: "emitUsageIfDue s2 t1 t2 = (s3, e3)" by force
  have eq: "st' = s3" "lg = e2 @ e3" using assms(2) Assistant 2 3 by (simp_all add: handleMessage_def)
  have a: "\<And>pre. tracks st pre \<Longrightarrow> tracks s2 (pre @ events e2) \<and> progress_ok pre (events e2)"
    using 2 by (cases content) (auto simp: events_Nil dest: accumulateUsage_ok assistantBlocks_ok)
  have "tracks s3 (pre @ events (e2 @ e3)) \<and> progress_ok pre (events (e2 @ e3))"
    using assms(1) a emitUsageIfDue_ok [OF _ 3] by (rule ok_step)
  then show ?thesis using eq by simp
next
  case (User content)
  then show ?thesis using assms
    by (cases content) (auto simp: handleMessage_def events_Nil dest: userBlocks_ok split: prod.splits)
next
  case (Result res)
  then show ?thesis using assms
    by (auto simp: handleMessage_def events_Nil tracks_def split: if_splits)
qed (use assms in \<open>simp_all add: handleMessage_def events_Nil\<close>)

lemma messageLoop_ok:
  "tracks st pre \<Longrightarrow> messageLoop cfg st items = (st', lg, r) \<Longrightarrow>
   tracks st' (pre @ events lg) \<and> progress_ok pre (events lg)"
proof (induction items arbitrary: st st' lg r pre)
  case Nil
  then show ?case by (simp add: events_Nil)
next
  case (Cons it items)
  show ?case
  proof (cases it)
    case (Throw e)
    with Cons.prems show ?thesis by (simp add: events_Nil)
  next
    case (Yield m)
    obtain s1 e1 r1 where 1: "handleMessage cfg st m = (s1, e1, r1)" by (metis prod_cases3)
    show ?thesis
    proof (cases r1)
      case (Some failure)
      then have "st' = s1" "lg = e1" using Cons.prems(2) Yield 1 by simp_all
      then show ?thesis using handleMessage_ok [OF Cons.prems(1) 1] by simp
    next
      case None
      obtain s2 e2 r2 where 2: "messageLoop cfg s1 items = (s2, e2, r2)" by (metis prod_cases3)
      have eq: "st' = s2" "lg = e1 @ e2" using Cons.prems(2) Yield 1 None 2 by simp_all
      have "tracks s2 (pre @ events (e1 @ e2)) \<and> progress_ok pre (events (e1 @ e2))"
        using Cons.prems(1) handleMessage_ok [OF _ 1] Cons.IH [OF _ 2] by (rule ok_step)
      then show ?thesis using eq by simp
    qed
  qed
qed

lemma runStart_ok:
  "tracks (fst runStart) (events (snd runStart)) \<and> progress_ok [] (events (snd runStart))"
  by (simp add: runStart_def emitPhase_def emitProgress_def initial_state_def obs_defs phase_at_def)

lemma progress_ok_nth:
  "progress_ok pre new \<Longrightarrow> n < length new \<Longrightarrow> new ! n = Progress p m \<Longrightarrow>
   phase_at (pre @ take n new) = exploring \<Longrightarrow>
   p = exploring_percent (explorers_finished (pre @ take n new)) (explorers_started (pre @ take n new))"
proof (induction new arbitrary: pre n)
  case Nil
  then show ?case by simp
next
  case (Cons e es)
  show ?case
  proof (cases n)
    case 0
    with Cons.prems show ?thesis by simp
  next
    case (Suc k)
    have "p = exploring_percent (explorers_finished ((pre @ [e]) @ take k es))
                (explorers_started ((pre @ [e]) @ take k es))"
      using Cons.prems Suc by (intro Cons.IH) simp_all
    then show ?thesis using Suc by simp
  qed
qed

lemma loop_log_ok: "progress_ok [] (events (loop_log cfg items))"
proof -
  obtain s l r where 1: "messageLoop cfg (fst runStart) items = (s, l, r)" by (metis prod_cases3)
  have "progress_ok (events (snd runStart)) (events l)"
    using runStart_ok messageLoop_ok [OF _ 1] by blast
  then show ?thesis using runStart_ok 1 by (simp add: loop_log_def events_append progress_ok_append)
qed

lemma runReview_log:
  "fst (runReview cfg items) =
     loop_log cfg items @
       (if isl (snd (runReview cfg items))
        then [emit (Complete error (Some (error_message (projl (snd (runReview cfg items))))))]
        else [emit (Progress (Finite 100) ''Review complete!''), emit (Complete completed None)])"
proof -
  obtain s0 e0 where 0: "runStart = (s0, e0)" by force
  obtain s l r where 1: "messageLoop cfg s0 items = (s, l, r)" by (metis prod_cases3)
  show ?thesis by (cases r) (simp_all add: runReview_def loop_log_def 0 1)
qed

lemma exploring_progress_general:
  assumes "n < length (emitted cfg items)"
    and "emitted cfg items ! n = Progress p m"
    and "phase_at (take n (emitted cfg items)) = exploring"
    and "\<not> final_progress cfg items n"
  shows "p = exploring_percent (explorers_finished (take n (emitted cfg items)))
               (explorers_started (take n (emitted cfg items)))"
proof -
  let ?L = "events (loop_log cfg items)"
  let ?E = "events (fst (runReview cfg items))"
  have a: "n < length ?E" "?E ! n = Progress p m" "phase_at (take n ?E) = exploring"
    "isl (snd (runReview cfg items)) \<or> Suc (Suc n) \<noteq> length ?E"
    using assms by (auto simp: emitted_def final_progress_def)
  have n: "n < length ?L"
  proof (rule ccontr)
    assume "\<not> n < length ?L"
    then show False using a(1,2,4)
      by (cases "isl (snd (runReview cfg items))")
         (auto simp: runReview_log [of cfg items] events_append events_def emit_def nth_append
               less_Suc_eq split: if_splits)
  qed
  have E: "?E ! n = ?L ! n" "take n ?E = take n ?L"
    using n by (simp_all add: runReview_log [of cfg items] events_append nth_append)
  show ?thesis
    using progress_ok_nth [OF loop_log_ok n] a(2,3) E by (simp add: emitted_def)
qed

lemma three_explorers_percents:
  "percents_of (emitted example_config three_explorers) =
     map Finite [5, 10, 10, 10, 27, 43, 60, 100]"
  by code_simp

lemma two_completions_percents:
  "percents_of (events (loop_log example_config (take 3 three_explorers))) =
     map Finite [5, 10, 10, 10, 27, 43]"
  by code_simp

text \<open>
  C2 (as amended). Every progress event that \<open>runReview\<close> emits through \<open>emitProgress\<close>
  (every progress event of a run but the final 100 of a successful one) at a point where
  the phase is exploring carries the percent \<open>Math.round(10 + 50 * (completed / total))\<close>,
  the quotient, the product and the sum each rounded to binary64, when explorers were
  delegated, and 15 when none was; completed and total are the counts shown by the events
  before it. In the run that delegates three explorers, the progress events up to the
  second completion are 5, 10, 10, 10, 27, 43, and the third completion emits 60.
\<close>

theorem exploring_progress_formula:
  "(\<forall>n p m. n < length (emitted cfg items) \<and> emitted cfg items ! n = Progress p m \<and>
            phase_at (take n (emitted cfg items)) = exploring \<and>
            \<not> final_progress cfg items n \<longrightarrow>
            p = exploring_percent (explorers_finished (take n (emitted cfg items)))
                  (explorers_started (take n (emitted cfg items)))) \<and>
   percents_of (events (loop_log example_config (take 3 three_explorers))) =
     map Finite [5, 10, 10, 10, 27, 43] \<and>
   percents_of (emitted example_config three_explorers) =
     map Finite [5, 10, 10, 10, 27, 43, 60, 100]"
  using exploring_progress_general three_explorers_percents two_completions_percents
  by blast

theorem exploring_progress_formula_witness:
  "14 < length (emitted example_config three_explorers) \<and>
   observed_at (emitted example_config three_explorers) 14 =
     (Progress (Finite 43) ''Exploring codebase (2/3 complete)'', exploring, 2, 3) \<and>
   \<not> final_progress example_config three_explorers 14 \<and>
   exploring_percent 2 3 = Finite 43"
proof -
  have 1: "14 < length (emitted example_config three_explorers)" by code_simp
  have 2: "observed_at (emitted example_config three_explorers) 14 =
             (Progress (Finite 43) ''Exploring codebase (2/3 complete)'', exploring, 2, 3)"
    by code_simp
  have 3: "\<not> final_progress example_config three_explorers 14" by code_simp
  have 4: "emitted example_config three_explorers ! 14 =
             Progress (Finite 43) ''Exploring codebase (2/3 complete)''"
    and 5: "phase_at (take 14 (emitted example_config three_explorers)) = exploring"
    and 6: "explorers_finished (take 14 (emitted example_config three_explorers)) = 2"
    and 7: "explorers_started (take 14 (emitted example_config three_explorers)) = 3"
    using 2 by (simp_all add: observed_at_def)
  have "Finite 43 =
          exploring_percent (explorers_finished (take 14 (emitted example_config three_explorers)))
            (explorers_started (take 14 (emitted example_config three_explorers)))"
    using exploring_progress_formula [of example_config three_explorers] 1 3 4 5 by blast
  then show ?thesis using 1 2 3 6 7 by simp
qed

text \<open>
  C2 as stated fails, in two ways. A run that ends with a success while the phase is
  exploring emits its final progress event, 100, at a point where the phase is exploring,
  one explorer is delegated and none has completed; the formula gives 10 there. And when
  twenty explorers are delegated and 41 results arrive for them, the progress event of the
  last result carries 112, where \<open>10 + 50 * (41 / 20)\<close> is \<open>112.5\<close> and rounds to 113: the
  binary64 value of the sum lies below \<open>112.5\<close>.
\<close>

theorem final_progress_while_exploring:
  "observed_at (emitted example_config one_explorer) 6 =
     (Progress (Finite 100) ''Review complete!'', exploring, 0, 1) \<and>
   exploring_percent 0 1 = Finite 10 \<and> exact_percent 0 1 = 10 \<and>
   observed_at (emitted example_config surplus_results) 165 =
     (Progress (Finite 112) ''Exploring codebase (41/20 complete)'', exploring, 41, 20) \<and>
   exact_percent 41 20 = 113"
proof -
  have 1: "observed_at (emitted example_config one_explorer) 6 =
             (Progress (Finite 100) ''Review complete!'', exploring, 0, 1)"
    by code_simp
  have 2: "exploring_percent 0 1 = Finite 10" by code_simp
  have 3: "exact_percent 0 1 = 10" by code_simp
  have 4: "observed_at (emitted example_config surplus_results) 165 =
             (Progress (Finite 112) ''Exploring codebase (41/20 complete)'', exploring, 41, 20)"
    by code_simp
  have 5: "exact_percent 41 20 = 113" by code_simp
  show ?thesis using 1 2 3 4 5 by simp
qed

section \<open>An invariant rule for the loop\<close>

text \<open>
  A predicate on the state and the log that every branch of the handler preserves, for
  blocks that satisfy \<open>Q\<close>, holds after the loop.
\<close>

lemma assistantBlocks_invariant:
  assumes lead: "\<And>st pre b st' lg. P st pre \<Longrightarrow> Q b \<Longrightarrow> leadTextBranch st parent b = (st', lg) \<Longrightarrow> P st' (pre @ lg)"
    and task: "\<And>st pre b st' lg. P st pre \<Longrightarrow> Q b \<Longrightarrow> taskBranch cfg st b = (st', lg) \<Longrightarrow> P st' (pre @ lg)"
    and act: "\<And>st pre b st' lg. P st pre \<Longrightarrow> Q b \<Longrightarrow> activityBranch st parent b = (st', lg) \<Longrightarrow> P st' (pre @ lg)"
  shows "P st pre \<Longrightarrow> list_all Q bs \<Longrightarrow> assistantBlocks cfg st parent bs = (st', lg) \<Longrightarrow> P st' (pre @ lg)"
proof (induction bs arbitrary: st st' lg pre)
  case Nil
  then show ?case by simp
next
  case (Cons b bs)
  obtain s1 e1 where 1: "leadTextBranch st parent b = (s1, e1)" by force
  obtain s2 e2 where 2: "taskBranch cfg s1 b = (s2, e2)" by force
  obtain s3 e3 where 3: "activityBranch s2 parent b = (s3, e3)" by force
  obtain s4 e4 where 4: "assistantBlocks cfg s3 parent bs = (s4, e4)" by force
  have eq: "st' = s4" "lg = (e1 @ e2 @ e3) @ e4"
    using Cons.prems(3) 1 2 3 4 by (simp_all add: assistantBlock_def)
  have q: "Q b" "list_all Q bs" using Cons.prems(2) by simp_all
  have "P s1 (pre @ e1)" using Cons.prems(1) q(1) 1 by (rule lead)
  then have "P s2 ((pre @ e1) @ e2)" using q(1) 2 by (rule task)
  then have "P s3 (((pre @ e1) @ e2) @ e3)" using q(1) 3 by (rule act)
  then have "P s4 ((((pre @ e1) @ e2) @ e3) @ e4)" using q(2) 4 by (rule Cons.IH)
  then show ?case using eq by simp
qed

lemma userBlocks_invariant:
  assumes usr: "\<And>st pre b st' lg. P st pre \<Longrightarrow> userBlock st b = (st', lg) \<Longrightarrow> P st' (pre @ lg)"
  shows "P st pre \<Longrightarrow> userBlocks st bs = (st', lg) \<Longrightarrow> P st' (pre @ lg)"
proof (induction bs arbitrary: st st' lg pre)
  case Nil
  then show ?case by simp
next
  case (Cons b bs)
  obtain s1 e1 where 1: "userBlock st b = (s1, e1)" by force
  obtain s2 e2 where 2: "userBlocks s1 bs = (s2, e2)" by force
  have eq: "st' = s2" "lg = e1 @ e2" using Cons.prems(2) 1 2 by simp_all
  have "P s1 (pre @ e1)" using Cons.prems(1) 1 by (rule usr)
  then have "P s2 ((pre @ e1) @ e2)" using 2 by (rule Cons.IH)
  then show ?case using eq by simp
qed

lemma messageLoop_invariant:
  assumes lead: "\<And>st pre parent b st' lg. P st pre \<Longrightarrow> Q b \<Longrightarrow> leadTextBranch st parent b = (st', lg) \<Longrightarrow> P st' (pre @ lg)"
    and task: "\<And>st pre b st' lg. P st pre \<Longrightarrow> Q b \<Longrightarrow> taskBranch cfg st b = (st', lg) \<Longrightarrow> P st' (pre @ lg)"
    and act: "\<And>st pre parent b st' lg. P st pre \<Longrightarrow> Q b \<Longrightarrow> activityBranch st parent b = (st', lg) \<Longrightarrow> P st' (pre @ lg)"
    and usr: "\<And>st pre b st' lg. P st pre \<Longrightarrow> userBlock st b = (st', lg) \<Longrightarrow> P st' (pre @ lg)"
    and acc: "\<And>st pre parent u. P st pre \<Longrightarrow> P (accumulateUsage st parent u) pre"
    and use: "\<And>st pre t1 t2 st' lg. P st pre \<Longrightarrow> emitUsageIfDue st t1 t2 = (st', lg) \<Longrightarrow> P st' (pre @ lg)"
    and fin: "\<And>st pre txt. P st pre \<Longrightarrow> P (st\<lparr>finalResult := txt\<rparr>) pre"
  shows "P st pre \<Longrightarrow> list_all (\<lambda>it. list_all Q (assistant_blocks it)) items \<Longrightarrow>
         messageLoop cfg st items = (st', lg, r) \<Longrightarrow> P st' (pre @ lg)"
proof (induction items arbitrary: st st' lg r pre)
  case Nil
  then show ?case by simp
next
  case (Cons it items)
  show ?case
  proof (cases it)
    case (Throw e)
    with Cons.prems show ?thesis by simp
  next
    case (Yield m)
    obtain s1 e1 r1 where 1: "handleMessage cfg st m = (s1, e1, r1)" by (metis prod_cases3)
    have step: "P s1 (pre @ e1)"
    proof (cases m)
      case (Assistant parent u content t1 t2)
      let ?s1 = "accumulateUsage st parent u"
      obtain s2 e2 where 2: "(case content of None \<Rightarrow> (?s1, []) | Some bs \<Rightarrow> assistantBlocks cfg ?s1 parent bs) = (s2, e2)"
        by force
      obtain s3 e3 where 3: "emitUsageIfDue s2 t1 t2 = (s3, e3)" by force
      have eq: "s1 = s3" "e1 = e2 @ e3" using 1 Assistant 2 3 by (simp_all add: handleMessage_def)
      have a: "P ?s1 pre" using Cons.prems(1) by (rule acc)
      have "P s2 (pre @ e2)"
      proof (cases content)
        case None
        with 2 a show ?thesis by auto
      next
        case (Some bs)
        have q: "list_all Q bs" using Cons.prems(2) Yield Assistant Some
          by (simp add: assistant_blocks_def)
        have b: "assistantBlocks cfg ?s1 parent bs = (s2, e2)" using 2 Some by simp
        show ?thesis
          by (rule assistantBlocks_invariant [where P = P and Q = Q, OF lead task act a q b])
      qed
      then have "P s3 ((pre @ e2) @ e3)" using 3 by (rule use)
      then show ?thesis using eq by simp
    next
      case (User content)
      show ?thesis
      proof (cases content)
        case None
        with 1 User Cons.prems(1) show ?thesis by (simp add: handleMessage_def)
      next
        case (Some bs)
        obtain s2 e2 where 2: "userBlocks st bs = (s2, e2)" by force
        have "s1 = s2" "e1 = e2" using 1 User Some 2 by (simp_all add: handleMessage_def)
        then show ?thesis
          using userBlocks_invariant [where P = P, OF usr Cons.prems(1) 2] by simp
      qed
    next
      case (Result res)
      then show ?thesis using 1 Cons.prems(1) fin
        by (auto simp: handleMessage_def split: if_splits)
    qed (use 1 Cons.prems(1) in \<open>simp_all add: handleMessage_def\<close>)
    show ?thesis
    proof (cases r1)
      case (Some failure)
      then have "st' = s1" "lg = e1" using Cons.prems(3) Yield 1 by simp_all
      then show ?thesis using step by simp
    next
      case None
      obtain s2 e2 r2 where 2: "messageLoop cfg s1 items = (s2, e2, r2)" by (metis prod_cases3)
      have eq: "st' = s2" "lg = e1 @ e2" using Cons.prems(3) Yield 1 None 2 by simp_all
      have "list_all (\<lambda>it. list_all Q (assistant_blocks it)) items" using Cons.prems(2) by simp
      with step have "P s2 ((pre @ e1) @ e2)" using 2 by (rule Cons.IH)
      then show ?thesis using eq by simp
    qed
  qed
qed

section \<open>The throttle of activity events\<close>



lemma leadTextBranch_silent:
  "leadTextBranch st parent b = (st', lg) \<Longrightarrow>
   activityThrottle st' = activityThrottle st \<and> activity_stamps k lg = [] \<and>
   list_all regular lg"
  by (auto simp: leadTextBranch_def emitPhase_def emitProgress_def emit_def activity_stamps_def
        stamp_of_def regular_def is_activity_def is_complete_def split: block.splits if_splits)

lemma taskBranch_silent:
  "taskBranch cfg st b = (st', lg) \<Longrightarrow>
   activityThrottle st' = activityThrottle st \<and> activity_stamps k lg = [] \<and>
   list_all regular lg"
  by (auto simp: taskBranch_def Let_def emitPhase_def emitProgress_def emit_def
        activity_stamps_def stamp_of_def regular_def is_activity_def is_complete_def
        split: block.splits if_splits)

lemma emitUsageIfDue_silent:
  "emitUsageIfDue st t1 t2 = (st', lg) \<Longrightarrow>
   activityThrottle st' = activityThrottle st \<and> activity_stamps k lg = [] \<and>
   list_all regular lg"
  by (auto simp: emitUsageIfDue_def emit_def activity_stamps_def stamp_of_def regular_def
        is_activity_def is_complete_def split: if_splits)

lemma userBlock_silent:
  "userBlock st b = (st', lg) \<Longrightarrow>
   activityThrottle st' = activityThrottle st \<and> activity_stamps k lg = [] \<and>
   list_all regular lg"
  by (auto simp: userBlock_def Let_def emitUsageIfDue_def emitProgress_def emit_def
        activity_stamps_def stamp_of_def regular_def is_activity_def is_complete_def
        split: block.splits if_splits option.splits)


text \<open>What the activity branch does, by cases.\<close>

lemma activityBranch_cases:
  assumes "activityBranch st parent b = (st', lg)"
  shows "(st' = st \<and> lg = []) \<or>
         (\<exists>a toolName tid inp t1 t2.
            parent = Some a \<and> truthy a \<and> b = ToolUse toolName tid inp t1 t2 \<and>
            ACTIVITY_THROTTLE_MS \<le> t1 - last_emit st a \<and>
            st' = st\<lparr>activityThrottle := mapSet a t2 (activityThrottle st)\<rparr> \<and>
            (lg = [] \<and> \<not> truthy (activity_detail toolName inp) \<or>
             truthy (activity_detail toolName inp) \<and>
             (\<exists>ty. lg = [(Some (a, t1, t2), Activity ty toolName (activity_detail toolName inp))])))"
  using assms
  by (cases b; cases parent)
     (auto simp: activityBranch_def Let_def last_emit_def split: if_splits)

lemma activityBranch_stamped:
  "activityBranch st parent b = (st', lg) \<Longrightarrow> list_all regular lg"
  by (drule activityBranch_cases) (auto simp: regular_def is_activity_def is_complete_def)










lemma stamped_append:
  "list_all regular pre \<Longrightarrow> list_all regular lg \<Longrightarrow>
   list_all regular (pre @ lg)"
  by simp

lemma messageLoop_stamped:
  assumes "list_all regular pre" "messageLoop cfg st items = (st', lg, r)"
  shows "list_all regular (pre @ lg)"
proof -
  have q: "list_all (\<lambda>it. list_all (\<lambda>b. True) (assistant_blocks it)) items"
    by (simp add: list_all_iff)
  have 1: "\<And>st pre parent b st' lg. list_all regular pre \<Longrightarrow> True \<Longrightarrow>
             leadTextBranch st parent b = (st', lg) \<Longrightarrow> list_all regular (pre @ lg)"
    using leadTextBranch_silent stamped_append by blast
  have 2: "\<And>st pre b st' lg. list_all regular pre \<Longrightarrow> True \<Longrightarrow>
             taskBranch cfg st b = (st', lg) \<Longrightarrow> list_all regular (pre @ lg)"
    using taskBranch_silent stamped_append by blast
  have 3: "\<And>st pre parent b st' lg. list_all regular pre \<Longrightarrow> True \<Longrightarrow>
             activityBranch st parent b = (st', lg) \<Longrightarrow> list_all regular (pre @ lg)"
    using activityBranch_stamped stamped_append by blast
  have 4: "\<And>st pre b st' lg. list_all regular pre \<Longrightarrow>
             userBlock st b = (st', lg) \<Longrightarrow> list_all regular (pre @ lg)"
    using userBlock_silent stamped_append by blast
  have 6: "\<And>st pre t1 t2 st' lg. list_all regular pre \<Longrightarrow>
             emitUsageIfDue st t1 t2 = (st', lg) \<Longrightarrow> list_all regular (pre @ lg)"
    using emitUsageIfDue_silent stamped_append by blast
  show ?thesis
    by (rule messageLoop_invariant
          [where P = "\<lambda>st lg. list_all regular lg" and Q = "\<lambda>b. True" and st = st,
           OF 1 2 3 4 _ 6 _ assms(1) q assms(2)])
qed

lemma loop_log_regular: "list_all regular (loop_log cfg items)"
proof -
  obtain s0 e0 where 0: "runStart = (s0, e0)" by force
  obtain s l r where 1: "messageLoop cfg s0 items = (s, l, r)" by (metis prod_cases3)
  have "list_all regular e0"
    using 0 by (auto simp: runStart_def emitPhase_def emitProgress_def emit_def
                  regular_def is_activity_def is_complete_def)
  from messageLoop_stamped [OF this 1]
  show ?thesis by (simp add: loop_log_def 0 1)
qed


lemma activityBranch_dropped:
  "truthy k \<Longrightarrow> t1 - last_emit st k < ACTIVITY_THROTTLE_MS \<Longrightarrow>
   activityBranch st (Some k) (ToolUse toolName tid inp t1 t2) = (st, [])"
  by (simp add: activityBranch_def Let_def last_emit_def)

lemma eligible_detail: "truthy (activity_detail toolName inp) \<longleftrightarrow> eligible toolName inp"
  by (auto simp: activity_detail_def eligible_def truthy_def truthy_opt_def orElse_def
        split: option.splits)

lemma ineligible_gate:
  assumes "truthy k" "\<not> eligible toolName inp"
  shows "snd (activityBranch st (Some k) (ToolUse toolName tid inp t1 t2)) = [] \<and>
   (\<forall>em \<in> set (snd (assistantBlock cfg st (Some k) (ToolUse toolName tid inp t1 t2))).
      \<not> is_activity (snd em)) \<and>
   (ACTIVITY_THROTTLE_MS \<le> t1 - last_emit st k \<longrightarrow>
      last_emit (fst (assistantBlock cfg st (Some k) (ToolUse toolName tid inp t1 t2))) k = t2) \<and>
   (t1 - last_emit st k < ACTIVITY_THROTTLE_MS \<longrightarrow>
      last_emit (fst (assistantBlock cfg st (Some k) (ToolUse toolName tid inp t1 t2))) k =
        last_emit st k)"
proof -
  let ?b = "ToolUse toolName tid inp t1 t2"
  have d: "\<not> truthy (activity_detail toolName inp)" using assms(2) by (simp add: eligible_detail)
  have 1: "leadTextBranch st (Some k) ?b = (st, [])" by (simp add: leadTextBranch_def)
  obtain s2 e2 where 2: "taskBranch cfg st ?b = (s2, e2)" by force
  have thr: "activityThrottle s2 = activityThrottle st" "list_all regular e2"
    using taskBranch_silent [OF 2, of k] by simp_all
  have a: "\<And>s. snd (activityBranch s (Some k) ?b) = []"
    using d assms(1) by (simp add: activityBranch_def Let_def)
  have ab: "assistantBlock cfg st (Some k) ?b =
              (fst (activityBranch s2 (Some k) ?b), e2)"
    using 1 2 a [of s2]
    by (cases "activityBranch s2 (Some k) ?b") (simp add: assistantBlock_def)
  have none: "\<forall>em \<in> set e2. \<not> is_activity (snd em)"
    using 2 by (auto simp: taskBranch_def Let_def emitPhase_def emitProgress_def emit_def
                  is_activity_def split: if_splits)
  have le: "last_emit s2 k = last_emit st k" using thr(1) by (simp add: last_emit_def)
  have pass: "ACTIVITY_THROTTLE_MS \<le> t1 - last_emit st k \<Longrightarrow>
              last_emit (fst (activityBranch s2 (Some k) ?b)) k = t2"
    using d assms(1) le
    by (simp add: activityBranch_def Let_def last_emit_def mapGet_mapSet orElse_def)
  have drop: "t1 - last_emit st k < ACTIVITY_THROTTLE_MS \<Longrightarrow>
              fst (activityBranch s2 (Some k) ?b) = s2"
    using assms(1) le by (simp add: activityBranch_dropped)
  show ?thesis using a ab none pass drop le by simp
qed




text \<open>
  C10 (as amended). A tool invocation of a subagent that is not eligible (its kind is not
  Read, Grep or Glob, or the detail field of its kind is missing) emits no activity event.
  When it passes the throttle gate, arriving at least 1000 ms after the entry of its agent
  key, it still sets the entry to its stored reading, so that any invocation of the same
  subagent compared less than 1000 ms after that reading is dropped. When it arrives
  inside the window it leaves the entry as it was.
\<close>

theorem ineligible_invocation_throttles:
  "truthy k \<Longrightarrow> \<not> eligible toolName inp \<Longrightarrow>
   (\<forall>em \<in> set (snd (assistantBlock cfg st (Some k) (ToolUse toolName tid inp t1 t2))).
      \<not> is_activity (snd em)) \<and>
   (ACTIVITY_THROTTLE_MS \<le> t1 - last_emit st k \<longrightarrow>
      last_emit (fst (assistantBlock cfg st (Some k) (ToolUse toolName tid inp t1 t2))) k = t2 \<and>
      (\<forall>st2 toolName2 tid2 inp2 u1 u2.
         last_emit st2 k = t2 \<and> u1 - t2 < ACTIVITY_THROTTLE_MS \<longrightarrow>
         activityBranch st2 (Some k) (ToolUse toolName2 tid2 inp2 u1 u2) = (st2, []))) \<and>
   (t1 - last_emit st k < ACTIVITY_THROTTLE_MS \<longrightarrow>
      last_emit (fst (assistantBlock cfg st (Some k) (ToolUse toolName tid inp t1 t2))) k =
        last_emit st k)"
  using ineligible_gate [of k toolName inp st tid t1 t2 cfg] activityBranch_dropped [of k]
  by simp

theorem ineligible_invocation_throttles_witness:
  "truthy ''a'' \<and> \<not> eligible ''Bash'' no_input \<and>
   ACTIVITY_THROTTLE_MS \<le> 1700000005500 - last_emit (fst runStart) ''a'' \<and>
   last_emit (fst (assistantBlock example_config (fst runStart) (Some ''a'')
                     (ToolUse ''Bash'' ''u2'' no_input 1700000005500 1700000005500))) ''a'' =
     1700000005500 \<and>
   activityBranch
     (fst (assistantBlock example_config (fst runStart) (Some ''a'')
             (ToolUse ''Bash'' ''u2'' no_input 1700000005500 1700000005500)))
     (Some ''a'') (read_file ''u3'' ''src/session.ts'' 1700000006200) =
     (fst (assistantBlock example_config (fst runStart) (Some ''a'')
             (ToolUse ''Bash'' ''u2'' no_input 1700000005500 1700000005500)), []) \<and>
   1700000005500 - last_emit (stateAfter example_config (take 2 throttle_stream)) ''a''
     < ACTIVITY_THROTTLE_MS \<and>
   last_emit
     (fst (assistantBlock example_config (stateAfter example_config (take 2 throttle_stream))
             (Some ''a'') (ToolUse ''Bash'' ''u2'' no_input 1700000005500 1700000005500))) ''a'' =
     1700000005000"
proof -
  have 1: "truthy ''a''" by (simp add: truthy_def)
  have 2: "\<not> eligible ''Bash'' no_input" by (simp add: eligible_def)
  have 3: "ACTIVITY_THROTTLE_MS \<le> 1700000005500 - last_emit (fst runStart) ''a''"
    by code_simp
  have 4: "(1700000006200::int) - 1700000005500 < ACTIVITY_THROTTLE_MS"
    by (simp add: ACTIVITY_THROTTLE_MS_def)
  have 5: "1700000005500 - last_emit (stateAfter example_config (take 2 throttle_stream)) ''a''
             < ACTIVITY_THROTTLE_MS"
    by code_simp
  have 6: "last_emit (stateAfter example_config (take 2 throttle_stream)) ''a'' = 1700000005000"
    by code_simp
  show ?thesis
    using 1 2 3 4 5 6
      ineligible_invocation_throttles
        [OF 1 2, of example_config "fst runStart" "''u2''" 1700000005500 1700000005500]
      ineligible_invocation_throttles
        [OF 1 2, of example_config "stateAfter example_config (take 2 throttle_stream)"
           "''u2''" 1700000005500 1700000005500]
    by (simp add: read_file_def)
qed

text \<open>
  C10 as stated fails: an invocation that is not eligible and arrives inside the window
  does not update the throttle entry. In the example the entry is still the reading of the
  first read after the Bash invocation at +5500, and the read that arrives 700 ms after
  that invocation is emitted, not dropped.
\<close>

theorem ineligible_inside_window_keeps_entry:
  "\<not> eligible ''Bash'' no_input \<and>
   last_emit (stateAfter example_config (take 2 throttle_stream)) ''a'' = 1700000005000 \<and>
   last_emit (stateAfter example_config (take 3 throttle_stream)) ''a'' = 1700000005000 \<and>
   filter is_activity (emitted example_config throttle_stream) =
     [Activity ''codebase-explorer'' ''Read'' ''src/auth.ts'',
      Activity ''codebase-explorer'' ''Read'' ''src/session.ts'']"
proof -
  have 1: "\<not> eligible ''Bash'' no_input" by (simp add: eligible_def)
  have 2: "last_emit (stateAfter example_config (take 2 throttle_stream)) ''a'' = 1700000005000"
    by code_simp
  have 3: "last_emit (stateAfter example_config (take 3 throttle_stream)) ''a'' = 1700000005000"
    by code_simp
  have 4: "filter is_activity (emitted example_config throttle_stream) =
     [Activity ''codebase-explorer'' ''Read'' ''src/auth.ts'',
      Activity ''codebase-explorer'' ''Read'' ''src/session.ts'']"
    by code_simp
  show ?thesis using 1 2 3 4 by simp
qed

section \<open>Failure of the engine\<close>

lemma handleMessage_failure:
  "handleMessage cfg st m = (st', lg, r) \<Longrightarrow>
   r = (case m of Result res \<Rightarrow>
          (if subtype res = ''success'' then None else Some (ErrorObject (failure_text res)))
        | _ \<Rightarrow> None)"
  by (cases m) (auto simp: handleMessage_def Let_def split: prod.splits if_splits option.splits)

lemma messageLoop_failure:
  "messageLoop cfg st items = (st', lg, r) \<Longrightarrow> r = engine_failure items"
proof (induction items arbitrary: st st' lg r)
  case Nil
  then show ?case by simp
next
  case (Cons it items)
  show ?case
  proof (cases it)
    case (Throw e)
    with Cons.prems show ?thesis by simp
  next
    case (Yield m)
    obtain s1 e1 r1 where 1: "handleMessage cfg st m = (s1, e1, r1)" by (metis prod_cases3)
    note f = handleMessage_failure [OF 1]
    show ?thesis
    proof (cases r1)
      case (Some failure)
      then have "r = r1" using Cons.prems Yield 1 by simp
      then show ?thesis using f Some Yield by (cases m) (auto split: if_splits)
    next
      case None
      obtain s2 e2 r2 where 2: "messageLoop cfg s1 items = (s2, e2, r2)" by (metis prod_cases3)
      have "r = r2" using Cons.prems Yield 1 None 2 by simp
      moreover have "r2 = engine_failure items" using 2 by (rule Cons.IH)
      ultimately show ?thesis using f None Yield by (cases m) (auto split: if_splits)
    qed
  qed
qed

lemma runReview_failure:
  assumes "engine_failure items = Some e"
  shows "runReview cfg items =
           (loop_log cfg items @ [emit (Complete error (Some (error_message e)))], Inl e)"
proof -
  obtain s0 e0 where 0: "runStart = (s0, e0)" by force
  obtain s l r where 1: "messageLoop cfg s0 items = (s, l, r)" by (metis prod_cases3)
  have "r = Some e" using messageLoop_failure [OF 1] assms by simp
  then show ?thesis by (simp add: runReview_def loop_log_def 0 1)
qed

lemma runReview_success:
  assumes "engine_failure items = None"
  shows "\<exists>res. snd (runReview cfg items) = Inr res"
proof -
  obtain s0 e0 where 0: "runStart = (s0, e0)" by force
  obtain s l r where 1: "messageLoop cfg s0 items = (s, l, r)" by (metis prod_cases3)
  have "r = None" using messageLoop_failure [OF 1] assms by simp
  then show ?thesis by (simp add: runReview_def 0 1)
qed

lemma failure_text_truthy: "truthy (error_message (ErrorObject (failure_text r)))"
  by (simp add: truthy_def error_message_def failure_text_def)

lemma reviewProcess_failure:
  assumes "engine_failure items = Some e" "getReviewMeta sto rid = Some meta"
  shows "reviewProcess cfg sto rid (Inr prd) items nowIso =
           (sto\<lparr>metas := (metas sto)(rid \<mapsto>
                   meta\<lparr>status := error, completedAt := Some nowIso,
                        err := (if truthy (error_message e) then Some (error_message e)
                                else err meta)\<rparr>)\<rparr>,
            loop_log cfg items @ [emit (Complete error (Some (error_message e)))])"
  using assms(2)
  by (simp add: reviewProcess_def runReview_failure [OF assms(1)] updateReviewStatus_def
        recordFailure_def getReviewMeta_def truthy_opt_def Let_def)

text \<open>
  C5 (as amended). For every run in which the engine throws or yields a result message
  that is not a success, \<open>runReview\<close> emits, as its last event and its only \<open>complete\<close>
  event, a \<open>complete\<close> event with status error carrying the failure message, and re-raises
  the failure to its caller; the job runner publishes these events and records the status
  of the stored review as error, with the time of completion, and records the captured
  message as its error whenever the message is not empty, which it always is for a result
  message that is not a success.
\<close>

theorem failure_is_reported_and_recorded:
  "engine_failure items = Some e \<Longrightarrow> getReviewMeta sto rid = Some meta \<Longrightarrow>
   snd (runReview cfg items) = Inl e \<and>
   fst (runReview cfg items) =
     loop_log cfg items @ [emit (Complete error (Some (error_message e)))] \<and>
   list_all (\<lambda>em. \<not> is_complete (snd em)) (loop_log cfg items) \<and>
   snd (reviewProcess cfg sto rid (Inr prd) items nowIso) = fst (runReview cfg items) \<and>
   getReviewMeta (fst (reviewProcess cfg sto rid (Inr prd) items nowIso)) rid =
     Some (meta\<lparr>status := error, completedAt := Some nowIso,
                err := (if truthy (error_message e) then Some (error_message e)
                        else err meta)\<rparr>) \<and>
   (\<forall>r. e = ErrorObject (failure_text r) \<longrightarrow> truthy (error_message e))"
proof -
  assume f: "engine_failure items = Some e" and m: "getReviewMeta sto rid = Some meta"
  have "list_all (\<lambda>em. \<not> is_complete (snd em)) (loop_log cfg items)"
    using loop_log_regular [of cfg items] by (simp add: list_all_iff regular_def)
  then show ?thesis
    using runReview_failure [OF f, of cfg] reviewProcess_failure [OF f m, of cfg prd nowIso]
      failure_text_truthy
    by (auto simp: getReviewMeta_def)
qed

theorem failure_is_reported_and_recorded_witness:
  "engine_failure max_turns_stream =
     Some (ErrorObject ''Agent failed with subtype: error_max_turns. Errors: []'') \<and>
   getReviewMeta (example_store pending None) ''r1'' = Some (example_meta pending None) \<and>
   snd (runReview example_config max_turns_stream) =
     Inl (ErrorObject ''Agent failed with subtype: error_max_turns. Errors: []'') \<and>
   last (emitted example_config max_turns_stream) =
     Complete error (Some ''Agent failed with subtype: error_max_turns. Errors: []'') \<and>
   getReviewMeta
     (fst (reviewProcess example_config (example_store pending None) ''r1'' (Inr ''# PRD'')
             max_turns_stream ''2026-02-01T10:05:00.000Z'')) ''r1'' =
     Some ((example_meta pending None)
             \<lparr>status := error, completedAt := Some ''2026-02-01T10:05:00.000Z'',
              err := Some ''Agent failed with subtype: error_max_turns. Errors: []''\<rparr>)"
proof -
  have f: "engine_failure max_turns_stream =
             Some (ErrorObject ''Agent failed with subtype: error_max_turns. Errors: []'')"
    by code_simp
  have m: "getReviewMeta (example_store pending None) ''r1'' = Some (example_meta pending None)"
    by (simp add: getReviewMeta_def example_store_def)
  have t: "truthy (error_message
             (ErrorObject ''Agent failed with subtype: error_max_turns. Errors: []''))"
    by (simp add: truthy_def error_message_def)
  have e: "error_message (ErrorObject ''Agent failed with subtype: error_max_turns. Errors: []'')
             = ''Agent failed with subtype: error_max_turns. Errors: []''"
    by (simp add: error_message_def)
  show ?thesis
    using f m t
      failure_is_reported_and_recorded
        [OF f m, of example_config "''# PRD''" "''2026-02-01T10:05:00.000Z''"]
    by (simp add: emitted_def events_def emit_def e)
qed

text \<open>
  C5 as stated fails: when the engine throws an error whose message is empty, in the run
  of a review that still holds the error of an earlier run, the status recorded is error
  but the error recorded is the earlier one, not the captured message.
\<close>

theorem empty_message_is_not_recorded:
  "engine_failure silent_throw = Some (ErrorObject []) \<and>
   error_message (ErrorObject []) = [] \<and>
   last (emitted example_config silent_throw) = Complete error (Some []) \<and>
   snd (runReview example_config silent_throw) = Inl (ErrorObject []) \<and>
   map_option status
     (getReviewMeta
        (fst (reviewProcess example_config (example_store pending (Some ''boom'')) ''r1''
                (Inr ''# PRD'') silent_throw ''2026-02-01T10:05:00.000Z'')) ''r1'') =
     Some error \<and>
   map_option err
     (getReviewMeta
        (fst (reviewProcess example_config (example_store pending (Some ''boom'')) ''r1''
                (Inr ''# PRD'') silent_throw ''2026-02-01T10:05:00.000Z'')) ''r1'') =
     Some (Some ''boom'')"
proof -
  have 1: "engine_failure silent_throw = Some (ErrorObject [])" by code_simp
  have 2: "error_message (ErrorObject []) = []" by code_simp
  have 3: "last (emitted example_config silent_throw) = Complete error (Some [])" by code_simp
  have 4: "snd (runReview example_config silent_throw) = Inl (ErrorObject [])" by code_simp
  have 5: "map_option status
     (getReviewMeta
        (fst (reviewProcess example_config (example_store pending (Some ''boom'')) ''r1''
                (Inr ''# PRD'') silent_throw ''2026-02-01T10:05:00.000Z'')) ''r1'') =
     Some error" by code_simp
  have 6: "map_option err
     (getReviewMeta
        (fst (reviewProcess example_config (example_store pending (Some ''boom'')) ''r1''
                (Inr ''# PRD'') silent_throw ''2026-02-01T10:05:00.000Z'')) ''r1'') =
     Some (Some ''boom'')" by code_simp
  show ?thesis using 1 2 3 4 5 6 by simp
qed

section \<open>The order of the phases\<close>

lemma phases_of_append: "phases_of (a @ b) = phases_of a @ phases_of b"
  by (simp add: phases_of_def)

lemma senior_delegations_append:
  "senior_delegations (a @ b) = senior_delegations a + senior_delegations b"
  by (simp add: senior_delegations_def)

lemma phase_le_refl: "phase_le p p"
  by (simp add: phase_le_def)

lemma phase_le_trans: "phase_le p q \<Longrightarrow> phase_le q r \<Longrightarrow> phase_le p r"
  by (simp add: phase_le_def)

text \<open>
  A branch that emits no phase event and no delegation of the senior developer, and keeps
  the phase, the flag and the task map, keeps the invariant.
\<close>

lemma phase_inv_silent:
  assumes "phase_inv st pre" "phases_of (events lg) = []" "senior_delegations (events lg) = 0"
    "currentPhase st' = currentPhase st" "seniorDevCompleted st' = seniorDevCompleted st"
    "taskMap st' = taskMap st"
  shows "phase_inv st' (pre @ lg)"
  using assms
  by (simp add: phase_inv_def events_append phases_of_append senior_delegations_append has_senior_def)

lemma activityBranch_phase:
  assumes "phase_inv st pre" "activityBranch st parent b = (st', lg)"
  shows "phase_inv st' (pre @ lg)"
proof -
  from activityBranch_cases [OF assms(2)]
  have "phases_of (events lg) = [] \<and> senior_delegations (events lg) = 0 \<and>
        currentPhase st' = currentPhase st \<and> seniorDevCompleted st' = seniorDevCompleted st \<and>
        taskMap st' = taskMap st"
    by (auto simp: events_def phases_of_def senior_delegations_def is_senior_started_def)
  with assms(1) show ?thesis by (auto intro: phase_inv_silent)
qed

lemma emitUsageIfDue_phase:
  assumes "phase_inv st pre" "emitUsageIfDue st t1 t2 = (st', lg)"
  shows "phase_inv st' (pre @ lg)"
proof -
  have "phases_of (events lg) = [] \<and> senior_delegations (events lg) = 0 \<and>
        currentPhase st' = currentPhase st \<and> seniorDevCompleted st' = seniorDevCompleted st \<and>
        taskMap st' = taskMap st"
    using assms(2)
    by (auto simp: emitUsageIfDue_def emit_def events_def phases_of_def senior_delegations_def
          is_senior_started_def split: if_splits)
  with assms(1) show ?thesis by (auto intro: phase_inv_silent)
qed

lemma accumulateUsage_phase:
  "phase_inv st pre \<Longrightarrow> phase_inv (accumulateUsage st parent u) pre"
  by (auto simp: accumulateUsage_def Let_def phase_inv_def has_senior_def
        split: option.splits if_splits)

lemma finalResult_phase: "phase_inv st pre \<Longrightarrow> phase_inv (st\<lparr>finalResult := txt\<rparr>) pre"
  by (simp add: phase_inv_def has_senior_def)

lemma leadTextBranch_phase:
  assumes "phase_inv st pre" "leadTextBranch st parent b = (st', lg)"
  shows "phase_inv st' (pre @ lg)"
proof (cases "st' = st \<and> lg = []")
  case True
  with assms(1) show ?thesis by simp
next
  case False
  then have st': "st' = st\<lparr>currentPhase := synthesizing\<rparr>" and fin: "seniorDevCompleted st"
    and ph: "phases_of (events lg) = [synthesizing]" and sd: "senior_delegations (events lg) = 0"
    using assms(2)
    by (auto simp: leadTextBranch_def emitPhase_def emitProgress_def emit_def events_def
          phases_of_def senior_delegations_def is_senior_started_def
          split: block.splits if_splits)
  have top: "\<And>p. phase_le p synthesizing"
    by (simp add: phase_le_def phase_rank_def split: ReviewPhase.splits)
  show ?thesis
    using assms(1) fin top
    by (auto simp: phase_inv_def st' events_append phases_of_append ph sd
          senior_delegations_append sorted_wrt_append has_senior_def)
qed

lemma userBlock_phase:
  assumes "phase_inv st pre" "userBlock st b = (st', lg)"
  shows "phase_inv st' (pre @ lg)"
proof (cases "st' = st \<and> lg = []")
  case True
  with assms(1) show ?thesis by simp
next
  case False
  then obtain tid t1 t2 i where b: "b = ToolResult tid t1 t2"
    and i: "mapGet (taskMap st) tid = Some i"
    using assms(2) by (auto simp: userBlock_def split: block.splits if_splits option.splits)
  have ph: "phases_of (events lg) = []" and sd: "senior_delegations (events lg) = 0"
    and cur: "currentPhase st' = currentPhase st" and tm: "taskMap st' = taskMap st"
    and sdc: "seniorDevCompleted st' \<longrightarrow> seniorDevCompleted st \<or> ti_agentType i = ''senior-developer''"
    using assms(2) b i
    by (auto simp: userBlock_def Let_def emitUsageIfDue_def emitProgress_def emit_def events_def
          phases_of_def senior_delegations_def is_senior_started_def split: if_splits)
  have syn: "currentPhase st = synthesizing \<longrightarrow> seniorDevCompleted st'"
    using assms(1,2) b i
    by (auto simp: phase_inv_def userBlock_def Let_def emitUsageIfDue_def split: if_splits)
  have hs: "ti_agentType i = ''senior-developer'' \<longrightarrow> has_senior st"
    using i by (auto simp: has_senior_def)
  show ?thesis
    using assms(1) sdc hs syn
    by (auto simp: phase_inv_def events_append phases_of_append ph sd cur tm
          senior_delegations_append has_senior_def)
qed

lemma taskBranch_phase:
  assumes "phase_inv st pre" "taskBranch cfg st b = (st', lg)"
  shows "phase_inv st' (pre @ lg)"
proof (cases "st' = st \<and> lg = []")
  case True
  with assms(1) show ?thesis by simp
next
  case False
  then obtain tid inp t1 t2 where b: "b = ToolUse ''Task'' tid inp t1 t2"
    using assms(2) by (auto simp: taskBranch_def split: block.splits if_splits)
  let ?ty = "orElse (subagent_type inp) ''unknown''"
  have sdc: "seniorDevCompleted st' = seniorDevCompleted st"
    and tm: "taskMap st' =
               mapSet tid \<lparr>ti_agentType = ?ty, ti_description = orElse (description inp) []\<rparr>
                 (taskMap st)"
    using assms(2) b
    by (auto simp: taskBranch_def Let_def emitPhase_def split: if_splits)
  have hs: "has_senior st' \<longrightarrow> has_senior st \<or> ?ty = ''senior-developer''"
    unfolding has_senior_def tm mapGet_mapSet by (auto split: if_splits)
  show ?thesis
  proof (cases "?ty = ''senior-developer''")
    case True
    have cur: "currentPhase st' = analyzing" and ph: "phases_of (events lg) = [analyzing]"
      and sd: "senior_delegations (events lg) = 1"
      using assms(2) b True
      by (auto simp: taskBranch_def Let_def emitPhase_def emitProgress_def emit_def events_def
            phases_of_def senior_delegations_def is_senior_started_def)
    have low: "senior_delegations (events pre) = 0 \<Longrightarrow> phase_le (currentPhase st) analyzing"
      using assms(1)
      by (cases "currentPhase st") (auto simp: phase_inv_def phase_le_def phase_rank_def)
    show ?thesis
      using assms(1) sdc low
      by (auto simp: phase_inv_def events_append phases_of_append ph sd cur
            senior_delegations_append sorted_wrt_append phase_le_refl
            intro: phase_le_trans)
  next
    case False
    have sd: "senior_delegations (events lg) = 0"
      using assms(2) b False
      by (auto simp: taskBranch_def Let_def emitPhase_def emitProgress_def emit_def events_def
            senior_delegations_def is_senior_started_def split: if_splits)
    have ph: "phases_of (events lg) = [] \<and> currentPhase st' = currentPhase st \<or>
              phases_of (events lg) = [exploring] \<and> currentPhase st = understanding \<and>
              currentPhase st' = exploring"
      using assms(2) b False
      by (auto simp: taskBranch_def Let_def emitPhase_def emitProgress_def emit_def events_def
            phases_of_def split: if_splits)
    have up: "phase_le understanding exploring" by (simp add: phase_le_def phase_rank_def)
    show ?thesis
      using assms(1) sdc hs False ph up
      by (auto simp: phase_inv_def events_append phases_of_append sd
            senior_delegations_append sorted_wrt_append phase_le_refl
            intro: phase_le_trans)
  qed
qed

lemma messageLoop_phase:
  assumes "phase_inv st pre" "messageLoop cfg st items = (st', lg, r)"
  shows "phase_inv st' (pre @ lg)"
proof -
  have q: "list_all (\<lambda>it. list_all (\<lambda>b. True) (assistant_blocks it)) items"
    by (simp add: list_all_iff)
  show ?thesis
    by (rule messageLoop_invariant
          [where P = phase_inv and Q = "\<lambda>b. True",
           OF leadTextBranch_phase taskBranch_phase activityBranch_phase userBlock_phase
              accumulateUsage_phase emitUsageIfDue_phase finalResult_phase assms(1) q assms(2)])
qed

lemma phases_monotone_single_senior:
  assumes "senior_delegations (emitted cfg items) \<le> 1"
  shows "sorted_wrt phase_le (phases_of (emitted cfg items))"
proof -
  obtain s0 e0 where 0: "runStart = (s0, e0)" by force
  obtain s l r where 1: "messageLoop cfg s0 items = (s, l, r)" by (metis prod_cases3)
  have "phase_inv s0 e0"
    using 0 by (auto simp: runStart_def emitPhase_def emitProgress_def emit_def events_def
                  phase_inv_def initial_state_def phases_of_def senior_delegations_def
                  is_senior_started_def has_senior_def phase_le_def)
  from messageLoop_phase [OF this 1] have inv: "phase_inv s (e0 @ l)" .
  have ll: "loop_log cfg items = e0 @ l" by (simp add: loop_log_def 0 1)
  have ph: "phases_of (emitted cfg items) = phases_of (events (e0 @ l))"
    and sd: "senior_delegations (emitted cfg items) = senior_delegations (events (e0 @ l))"
    by (simp_all add: emitted_def runReview_log [of cfg items] ll events_append phases_of_append
          senior_delegations_append events_def emit_def phases_of_def senior_delegations_def
          is_senior_started_def)
  show ?thesis using inv assms by (simp add: phase_inv_def ph sd)
qed

text \<open>
  C1. The phases carried by the phase events of a run never decrease in the order
  understanding, exploring, analyzing, synthesizing. This holds for every run that
  delegates the senior developer at most once (the lemma above). The code breaks it
  otherwise: when the senior developer is delegated a second time after the lead agent
  began to synthesize, the phases emitted are understanding, analyzing, synthesizing,
  analyzing.
\<close>

theorem phase_regression_after_synthesizing:
  "phases_of (emitted example_config regress_stream) =
     [understanding, analyzing, synthesizing, analyzing] \<and>
   senior_delegations (emitted example_config regress_stream) = 2 \<and>
   \<not> sorted_wrt phase_le (phases_of (emitted example_config regress_stream))"
proof -
  have 1: "phases_of (emitted example_config regress_stream) =
             [understanding, analyzing, synthesizing, analyzing]"
    by code_simp
  have 2: "senior_delegations (emitted example_config regress_stream) = 2" by code_simp
  show ?thesis unfolding 1 using 2 by (simp add: phase_le_def phase_rank_def)
qed

end
